theory Spec2Isabelle
  imports Main "HOL-Library.Word" "HOL-Library.AList" "HOL-Library.Char_ord"
    "HOL-Library.List_Lexorder" "HOL-Library.Sublist"
begin

unbundle bit_operations_syntax

section \<open>RouterOS blocklist sync: the escalation engine of main.go\<close>

text \<open>
  The development embeds the core of \<^verbatim>\<open>main.go\<close>: address normalisation
  (\<^verbatim>\<open>sanitizeIP\<close>), whitelist matching (\<^verbatim>\<open>isWhitelisted\<close>), the persisted
  offense counts (\<^verbatim>\<open>loadState\<close>, \<^verbatim>\<open>saveState\<close>), the escalation decision
  (\<^verbatim>\<open>getTimeout\<close>) and the per-address loop of \<^verbatim>\<open>main\<close>.

  Go values are modelled as follows. A \<^verbatim>\<open>string\<close> is a list of bytes
  (\<^typ>\<open>string\<close>). An \<^verbatim>\<open>int\<close> is a 64-bit two's complement word read with
  \<^const>\<open>sint\<close>. A run-time panic is a value of type \<open>panic\<close> on the left of a sum.
  The functions of the Go standard library that the program calls
  (\<^verbatim>\<open>strings\<close>, \<^verbatim>\<open>net\<close>, \<^verbatim>\<open>fmt\<close>, \<^verbatim>\<open>encoding/json\<close>) are modelled
  after their documented behaviour in Go 1.24, the version the repository asks for.
\<close>

type_synonym goint = "64 word"
type_synonym byte = "8 word"

datatype panic = IndexOutOfRange | NilMapWrite


subsection \<open>Package strings\<close>

primrec strings_Contains :: "string \<Rightarrow> string \<Rightarrow> bool" where
  "strings_Contains [] substr = (substr = [])"
| "strings_Contains (c # cs) substr = (prefix substr (c # cs) \<or> strings_Contains cs substr)"

primrec strings_Split :: "string \<Rightarrow> char \<Rightarrow> string list" where
  "strings_Split [] sep = [[]]"
| "strings_Split (c # cs) sep =
     (if c = sep then [] # strings_Split cs sep
      else (c # hd (strings_Split cs sep)) # tl (strings_Split cs sep))"

definition strings_Trim :: "string \<Rightarrow> char \<Rightarrow> string" where
  "strings_Trim s cutset = rev (dropWhile (\<lambda>c. c = cutset) (rev (dropWhile (\<lambda>c. c = cutset) s)))"

definition asciiSpace :: "char list" where
  "asciiSpace = [CHR 0x09, CHR 0x0A, CHR 0x0B, CHR 0x0C, CHR 0x0D, CHR 0x20]"

definition unicodeSpace :: "string list" where
  "unicodeSpace =
     [[CHR 0xC2, CHR 0x85], [CHR 0xC2, CHR 0xA0], [CHR 0xE1, CHR 0x9A, CHR 0x80],
      [CHR 0xE2, CHR 0x80, CHR 0x80], [CHR 0xE2, CHR 0x80, CHR 0x81], [CHR 0xE2, CHR 0x80, CHR 0x82],
      [CHR 0xE2, CHR 0x80, CHR 0x83], [CHR 0xE2, CHR 0x80, CHR 0x84], [CHR 0xE2, CHR 0x80, CHR 0x85],
      [CHR 0xE2, CHR 0x80, CHR 0x86], [CHR 0xE2, CHR 0x80, CHR 0x87], [CHR 0xE2, CHR 0x80, CHR 0x88],
      [CHR 0xE2, CHR 0x80, CHR 0x89], [CHR 0xE2, CHR 0x80, CHR 0x8A], [CHR 0xE2, CHR 0x80, CHR 0xA8],
      [CHR 0xE2, CHR 0x80, CHR 0xA9], [CHR 0xE2, CHR 0x80, CHR 0xAF], [CHR 0xE2, CHR 0x81, CHR 0x9F],
      [CHR 0xE3, CHR 0x80, CHR 0x80]]"

definition leadingSpace :: "string \<Rightarrow> nat" where
  "leadingSpace s =
     (case s of [] \<Rightarrow> 0
      | c # _ \<Rightarrow> if c \<in> set asciiSpace then 1
                 else (case find (\<lambda>q. prefix q s) unicodeSpace of None \<Rightarrow> 0 | Some q \<Rightarrow> length q))"

definition trailingSpace :: "string \<Rightarrow> nat" where
  "trailingSpace s =
     (case rev s of [] \<Rightarrow> 0
      | c # _ \<Rightarrow> if c \<in> set asciiSpace then 1
                 else (case find (\<lambda>q. suffix q s) unicodeSpace of None \<Rightarrow> 0 | Some q \<Rightarrow> length q))"

lemma leadingSpace_le: "leadingSpace s \<le> length s"
proof (cases "find (\<lambda>q. prefix q s) unicodeSpace")
  case None
  then show ?thesis by (cases s) (simp_all add: leadingSpace_def)
next
  case (Some q)
  then have "prefix q s" by (auto simp: find_Some_iff)
  then have "length q \<le> length s" by (rule prefix_length_le)
  with Some show ?thesis by (cases s) (simp_all add: leadingSpace_def)
qed

lemma trailingSpace_le: "trailingSpace s \<le> length s"
proof (cases "find (\<lambda>q. suffix q s) unicodeSpace")
  case None
  then show ?thesis by (cases "rev s") (simp_all add: trailingSpace_def)
next
  case (Some q)
  then have "suffix q s" by (auto simp: find_Some_iff)
  then have "length q \<le> length s" by (rule suffix_length_le)
  with Some show ?thesis
    by (cases "rev s") (simp_all add: trailingSpace_def flip: length_rev[of s])
qed

function TrimLeftSpace :: "string \<Rightarrow> string" where
  "TrimLeftSpace s = (if leadingSpace s = 0 then s else TrimLeftSpace (drop (leadingSpace s) s))"
  by pat_completeness auto
termination
proof (relation "measure length")
  fix s assume "leadingSpace s \<noteq> 0"
  then show "(drop (leadingSpace s) s, s) \<in> measure length"
    using leadingSpace_le[of s] by (cases s) (auto simp: leadingSpace_def)
qed simp

function TrimRightSpace :: "string \<Rightarrow> string" where
  "TrimRightSpace s =
     (if trailingSpace s = 0 then s else TrimRightSpace (take (length s - trailingSpace s) s))"
  by pat_completeness auto
termination
proof (relation "measure length")
  fix s assume "trailingSpace s \<noteq> 0"
  then show "(take (length s - trailingSpace s) s, s) \<in> measure length"
    using trailingSpace_le[of s] by (cases s) (auto simp: trailingSpace_def)
qed simp

declare TrimLeftSpace.simps [simp del] TrimRightSpace.simps [simp del]

definition strings_TrimSpace :: "string \<Rightarrow> string" where
  "strings_TrimSpace s = TrimRightSpace (TrimLeftSpace s)"

subsection \<open>Package net/netip\<close>

type_synonym IP = "byte list"

datatype Addr = Addr4 "byte list" | Addr6 "byte list" string

definition isDigit :: "char \<Rightarrow> bool" where
  "isDigit c = (CHR ''0'' \<le> c \<and> c \<le> CHR ''9'')"

definition digitVal :: "char \<Rightarrow> nat" where
  "digitVal c = of_char c - 48"

definition hexVal :: "char \<Rightarrow> nat option" where
  "hexVal c =
     (if CHR ''0'' \<le> c \<and> c \<le> CHR ''9'' then Some (of_char c - 48)
      else if CHR ''a'' \<le> c \<and> c \<le> CHR ''f'' then Some (of_char c - 87)
      else if CHR ''A'' \<le> c \<and> c \<le> CHR ''F'' then Some (of_char c - 55)
      else None)"

fun parseIPv4Fields :: "string \<Rightarrow> nat \<Rightarrow> nat \<Rightarrow> bool \<Rightarrow> byte list \<Rightarrow> byte list option" where
  "parseIPv4Fields [] val digLen prevDot fields =
     (if length fields < 3 then None else Some (fields @ [of_nat val]))"
| "parseIPv4Fields (c # cs) val digLen prevDot fields =
     (if isDigit c then
        (if digLen = 1 \<and> val = 0 then None
         else if val * 10 + digitVal c > 255 then None
         else parseIPv4Fields cs (val * 10 + digitVal c) (digLen + 1) False fields)
      else if c = CHR ''.'' then
        (if prevDot \<or> cs = [] then None
         else if length fields = 3 then None
         else parseIPv4Fields cs 0 0 True (fields @ [of_nat val]))
      else None)"

definition parseIPv4 :: "string \<Rightarrow> Addr option" where
  "parseIPv4 s = map_option Addr4 (parseIPv4Fields s 0 0 True [])"

definition isHexDigit :: "char \<Rightarrow> bool" where
  "isHexDigit c = (hexVal c \<noteq> None)"

definition hexAcc :: "string \<Rightarrow> int" where
  "hexAcc hx = fold (\<lambda>c acc. acc * 16 + int (the (hexVal c))) hx 0"

function parseIPv6_loop ::
  "string \<Rightarrow> byte list \<Rightarrow> nat option \<Rightarrow> (string \<times> byte list \<times> nat option) option" where
  "parseIPv6_loop s ip ellipsis =
     (if \<not> length ip < 16 then Some (s, ip, ellipsis)
      else if length (takeWhile isHexDigit s) > 4 then None
      else if hexAcc (takeWhile isHexDigit s) > 65535 then None
      else if takeWhile isHexDigit s = [] then None
      else if dropWhile isHexDigit s \<noteq> []
              \<and> hd (dropWhile isHexDigit s) = CHR ''.'' then
        (if ellipsis = None \<and> length ip \<noteq> 12 then None
         else if length ip + 4 > 16 then None
         else (case parseIPv4Fields s 0 0 True [] of
                 None \<Rightarrow> None
               | Some f \<Rightarrow> Some ([], ip @ f, ellipsis)))
      else
        (case dropWhile isHexDigit s of
           [] \<Rightarrow> Some ([], ip @ [of_int (hexAcc (takeWhile isHexDigit s) div 256),
                               of_int (hexAcc (takeWhile isHexDigit s))], ellipsis)
         | c # s1 \<Rightarrow>
             if c \<noteq> CHR '':'' then None
             else (case s1 of
                [] \<Rightarrow> None
              | c1 # s2 \<Rightarrow>
                  if c1 = CHR '':'' then
                    (if ellipsis \<noteq> None then None
                     else if s2 = [] then
                       Some ([], ip @ [of_int (hexAcc (takeWhile isHexDigit s) div 256),
                                       of_int (hexAcc (takeWhile isHexDigit s))],
                             Some (length ip + 2))
                     else parseIPv6_loop s2
                            (ip @ [of_int (hexAcc (takeWhile isHexDigit s) div 256),
                                   of_int (hexAcc (takeWhile isHexDigit s))])
                            (Some (length ip + 2)))
                  else parseIPv6_loop s1
                         (ip @ [of_int (hexAcc (takeWhile isHexDigit s) div 256),
                                of_int (hexAcc (takeWhile isHexDigit s))])
                         ellipsis)))"
  by pat_completeness auto
termination
  by (relation "measure (\<lambda>(s, ip, e). 16 - length ip)") auto

declare parseIPv6_loop.simps [simp del]

definition parseIPv6_finish :: "string \<Rightarrow> byte list \<Rightarrow> nat option \<Rightarrow> string \<Rightarrow> Addr option" where
  "parseIPv6_finish s ip ellipsis zone =
     (case parseIPv6_loop s ip ellipsis of
        None \<Rightarrow> None
      | Some (s', ip', ellipsis') \<Rightarrow>
          if s' \<noteq> [] then None
          else if length ip' < 16 then
            (case ellipsis' of
               None \<Rightarrow> None
             | Some e \<Rightarrow> Some (Addr6 (take e ip' @ replicate (16 - length ip') 0 @ drop e ip') zone))
          else if ellipsis' \<noteq> None then None
          else Some (Addr6 ip' zone))"

definition parseIPv6 :: "string \<Rightarrow> Addr option" where
  "parseIPv6 inp =
     (let s = takeWhile (\<lambda>c. c \<noteq> CHR ''%'') inp;
          zone = drop (length s + 1) inp
      in if CHR ''%'' \<in> set inp \<and> zone = [] then None
         else if take 2 s = ''::'' then
           (if drop 2 s = [] then Some (Addr6 (replicate 16 0) zone)
            else parseIPv6_finish (drop 2 s) [] (Some 0) zone)
         else parseIPv6_finish s [] None zone)"

fun ParseAddr_scan :: "string \<Rightarrow> string \<Rightarrow> Addr option" where
  "ParseAddr_scan inp [] = None"
| "ParseAddr_scan inp (c # cs) =
     (if c = CHR ''.'' then parseIPv4 inp
      else if c = CHR '':'' then parseIPv6 inp
      else if c = CHR ''%'' then None
      else ParseAddr_scan inp cs)"

definition ParseAddr :: "string \<Rightarrow> Addr option" where
  "ParseAddr s = ParseAddr_scan s s"

definition v4InV6Prefix :: "byte list" where
  "v4InV6Prefix = [0, 0, 0, 0, 0, 0, 0, 0, 0, 0, 0xff, 0xff]"

fun As16 :: "Addr \<Rightarrow> byte list" where
  "As16 (Addr4 b) = v4InV6Prefix @ b"
| "As16 (Addr6 b z) = b"

fun Zone :: "Addr \<Rightarrow> string" where
  "Zone (Addr4 b) = []"
| "Zone (Addr6 b z) = z"

fun BitLen :: "Addr \<Rightarrow> nat" where
  "BitLen (Addr4 b) = 32"
| "BitLen (Addr6 b z) = 128"

definition ParseIP :: "string \<Rightarrow> IP option" where
  "ParseIP s =
     (case ParseAddr s of
        None \<Rightarrow> None
      | Some a \<Rightarrow> if Zone a \<noteq> [] then None else Some (As16 a))"

definition To4 :: "IP \<Rightarrow> IP option" where
  "To4 ip =
     (if length ip = 4 then Some ip
      else if length ip = 16 \<and> take 10 ip = replicate 10 0 \<and> ip ! 10 = 0xff \<and> ip ! 11 = 0xff
      then Some (drop 12 ip)
      else None)"

definition digits :: string where
  "digits = ''0123456789abcdef''"

definition appendDecimal :: "nat \<Rightarrow> string" where
  "appendDecimal x =
     (if x \<ge> 100 then [digits ! (x div 100)] else []) @
     (if x \<ge> 10 then [digits ! (x div 10 mod 10)] else []) @
     [digits ! (x mod 10)]"

definition appendHex :: "int \<Rightarrow> string" where
  "appendHex x =
     (if x \<ge> 0x1000 then [digits ! nat (x div 0x1000)] else []) @
     (if x \<ge> 0x100 then [digits ! nat (x div 0x100 mod 16)] else []) @
     (if x \<ge> 0x10 then [digits ! nat (x div 0x10 mod 16)] else []) @
     [digits ! nat (x mod 16)]"

definition string4 :: "byte list \<Rightarrow> string" where
  "string4 b =
     appendDecimal (unat (b ! 0)) @ ''.'' @ appendDecimal (unat (b ! 1)) @ ''.'' @
     appendDecimal (unat (b ! 2)) @ ''.'' @ appendDecimal (unat (b ! 3))"

definition v6u16 :: "byte list \<Rightarrow> nat \<Rightarrow> int" where
  "v6u16 ip i = uint (ip ! (2 * i)) * 256 + uint (ip ! (2 * i + 1))"

definition zeroRun :: "int list \<Rightarrow> nat \<Rightarrow> nat" where
  "zeroRun g i = length (takeWhile (\<lambda>x. x = 0) (drop i g))"

definition longestZeros :: "int list \<Rightarrow> nat \<times> nat" where
  "longestZeros g =
     fold (\<lambda>i (zeroStart, zeroEnd).
             if zeroRun g i \<ge> 2 \<and> zeroRun g i > zeroEnd - zeroStart
             then (i, i + zeroRun g i) else (zeroStart, zeroEnd))
          [0..<8] (255, 255)"

fun joinColon :: "string list \<Rightarrow> string" where
  "joinColon [] = []"
| "joinColon [x] = x"
| "joinColon (x # y # ys) = x @ '':'' @ joinColon (y # ys)"

definition string6 :: "byte list \<Rightarrow> string" where
  "string6 ip =
     (let g = map (v6u16 ip) [0..<8] in
      case longestZeros g of (zeroStart, zeroEnd) \<Rightarrow>
        if zeroStart < 8
        then joinColon (map appendHex (take zeroStart g)) @ ''::'' @
             joinColon (map appendHex (drop zeroEnd g))
        else joinColon (map appendHex g))"

definition hexString :: "byte list \<Rightarrow> string" where
  "hexString b = concat (map (\<lambda>x. [digits ! (unat x div 16), digits ! (unat x mod 16)]) b)"

definition IP_String :: "IP \<Rightarrow> string" where
  "IP_String ip =
     (if length ip = 0 then ''<nil>''
      else if length ip \<noteq> 4 \<and> length ip \<noteq> 16 then ''?'' @ hexString ip
      else (case To4 ip of Some p4 \<Rightarrow> string4 p4 | None \<Rightarrow> string6 ip))"

record IPNet =
  IP :: "byte list"
  Mask :: "byte list"

fun dtoi_go :: "string \<Rightarrow> int \<Rightarrow> nat \<Rightarrow> int \<times> nat \<times> bool" where
  "dtoi_go [] n i = (if i = 0 then (0, 0, False) else (n, i, True))"
| "dtoi_go (c # cs) n i =
     (if isDigit c then
        (if n * 10 + int (digitVal c) \<ge> 0xFFFFFF then (0xFFFFFF, i, False)
         else dtoi_go cs (n * 10 + int (digitVal c)) (i + 1))
      else (if i = 0 then (0, 0, False) else (n, i, True)))"

definition dtoi :: "string \<Rightarrow> int \<times> nat \<times> bool" where
  "dtoi s = dtoi_go s 0 0"

definition CIDRMask :: "nat \<Rightarrow> nat \<Rightarrow> byte list" where
  "CIDRMask ones bits =
     map (\<lambda>i. if ones - 8 * i \<ge> 8 then 0xff else NOT (drop_bit (ones - 8 * i) 0xff))
         [0..<bits div 8]"

definition allFF :: "byte list \<Rightarrow> bool" where
  "allFF b = list_all (\<lambda>c. c = 0xff) b"

definition IP_Mask :: "IP \<Rightarrow> byte list \<Rightarrow> IP" where
  "IP_Mask ip msk =
     (let m1 = (if length msk = 16 \<and> length ip = 4 \<and> allFF (take 12 msk)
                   then drop 12 msk else msk);
          ip1 = (if length m1 = 4 \<and> length ip = 16 \<and> take 12 ip = v4InV6Prefix
                 then drop 12 ip else ip)
      in if length ip1 \<noteq> length m1 then [] else map2 (AND) ip1 m1)"

definition ParseCIDR :: "string \<Rightarrow> (IP \<times> IPNet) option" where
  "ParseCIDR s =
     (if CHR ''/'' \<notin> set s then None
      else
        (let addr = takeWhile (\<lambda>c. c \<noteq> CHR ''/'') s;
             msk = drop (length addr + 1) s
         in case ParseAddr addr of
              None \<Rightarrow> None
            | Some ipAddr \<Rightarrow>
                if Zone ipAddr \<noteq> [] then None
                else (case dtoi msk of (n, i, ok) \<Rightarrow>
                  if \<not> ok \<or> i \<noteq> length msk \<or> n < 0 \<or> n > int (BitLen ipAddr) then None
                  else (let m = CIDRMask (nat n) (BitLen ipAddr)
                        in Some (As16 ipAddr, \<lparr>IP = IP_Mask (As16 ipAddr) m, Mask = m\<rparr>)))))"

definition networkNumberAndMask :: "IPNet \<Rightarrow> (IP \<times> byte list) option" where
  "networkNumberAndMask n =
     (let ipo = (case To4 (IP n) of Some x \<Rightarrow> Some x
                 | None \<Rightarrow> if length (IP n) \<noteq> 16 then None else Some (IP n))
      in case ipo of
           None \<Rightarrow> None
         | Some ip \<Rightarrow>
             if length (Mask n) = 4 then (if length ip \<noteq> 4 then None else Some (ip, Mask n))
             else if length (Mask n) = 16
             then (if length ip = 4 then Some (ip, drop 12 (Mask n)) else Some (ip, Mask n))
             else None)"

definition IPNet_Contains :: "IPNet \<Rightarrow> IP \<Rightarrow> bool" where
  "IPNet_Contains n ip0 =
     (let ip = (case To4 ip0 of Some x \<Rightarrow> x | None \<Rightarrow> ip0)
      in case networkNumberAndMask n of
           None \<Rightarrow> length ip = 0
         | Some (nn, m) \<Rightarrow>
             length ip = length nn \<and> map2 (AND) nn m = map2 (AND) ip (take (length ip) m))"

definition sanitizeIP :: "string \<Rightarrow> string" where
  "sanitizeIP raw =
     (let raw1 = strings_Trim raw (CHR 0x22);
          raw2 = (if strings_Contains raw1 '','' then hd (strings_Split raw1 (CHR '','')) else raw1);
          raw3 = strings_TrimSpace raw2
      in case ParseIP raw3 of None \<Rightarrow> [] | Some ip \<Rightarrow> IP_String ip)"

fun isWhitelisted_loop :: "string \<Rightarrow> IP \<Rightarrow> string list \<Rightarrow> bool" where
  "isWhitelisted_loop ip p [] = False"
| "isWhitelisted_loop ip p (e # wl) =
     (let entry = strings_TrimSpace e in
      if \<not> strings_Contains entry ''/'' then
        (if entry = ip then True else isWhitelisted_loop ip p wl)
      else
        (case ParseCIDR entry of
           Some (_, cidr) \<Rightarrow> if IPNet_Contains cidr p then True else isWhitelisted_loop ip p wl
         | None \<Rightarrow> isWhitelisted_loop ip p wl))"

definition isWhitelisted :: "string \<Rightarrow> string list \<Rightarrow> bool" where
  "isWhitelisted ip wl =
     (case ParseIP ip of None \<Rightarrow> False | Some p \<Rightarrow> isWhitelisted_loop ip p wl)"

subsection \<open>Package fmt: the verb \<^verbatim>\<open>%02d\<close>\<close>

text \<open>
  \<^verbatim>\<open>fmt.Sprintf("%02d", h)\<close> prints a non-negative \<open>h\<close> in decimal, padded with
  zeros on the left to two characters; for a negative \<open>h\<close> the sign takes one of the
  two columns, so the digits are printed as they are after the sign.
\<close>

function decimal :: "int \<Rightarrow> string" where
  "decimal n = (if n < 10 then [digits ! nat n] else decimal (n div 10) @ [digits ! nat (n mod 10)])"
  by pat_completeness auto
termination
  by (relation "measure nat") auto

declare decimal.simps [simp del]

definition sprintf_02d :: "goint \<Rightarrow> string" where
  "sprintf_02d h =
     (if sint h < 0 then CHR ''-'' # decimal (- sint h)
      else if length (decimal (sint h)) < 2 then CHR ''0'' # decimal (sint h)
      else decimal (sint h))"

text \<open>The number that a string of decimal digits denotes.\<close>

definition decimalValue :: "string \<Rightarrow> int" where
  "decimalValue ds = fold (\<lambda>c acc. acc * 10 + int (digitVal c)) ds 0"

subsection \<open>The escalation decision\<close>

text \<open>
  \<^verbatim>\<open>getTimeout(count, hours)\<close>, lines 237 to 242. The slice access
  \<^verbatim>\<open>hours[count-1]\<close> panics when the index is negative or not below the length.
\<close>

definition getTimeout :: "goint \<Rightarrow> goint list \<Rightarrow> panic + string" where
  "getTimeout count hours =
     (if sint count \<le> int (length hours) then
        (if 0 \<le> sint (count - 1) \<and> sint (count - 1) < int (length hours)
         then Inr (sprintf_02d (hours ! nat (sint (count - 1))) @ '':00:00'')
         else Inl IndexOutOfRange)
      else Inr ''0'')"

subsection \<open>The offense counts\<close>

text \<open>
  The state is a Go \<^verbatim>\<open>map[string]int\<close>. \<open>None\<close> is the nil map: it reads as
  empty and panics on assignment. \<open>Some m\<close> is an allocated map with the entries of the
  association list \<open>m\<close>, read through \<^const>\<open>map_of\<close>.
\<close>

type_synonym state = "(string \<times> goint) list option"

definition state_get :: "state \<Rightarrow> string \<Rightarrow> goint" where
  "state_get st k =
     (case st of None \<Rightarrow> 0 | Some m \<Rightarrow> (case map_of m k of None \<Rightarrow> 0 | Some v \<Rightarrow> v))"

definition state_incr :: "state \<Rightarrow> string \<Rightarrow> panic + state" where
  "state_incr st k =
     (case st of
        None \<Rightarrow> Inl NilMapWrite
      | Some m \<Rightarrow> Inr (Some (AList.update k (state_get st k + 1) m)))"

subsection \<open>The loop of main\<close>

record Config =
  MtHost :: string
  MtUser :: string
  MtPass :: string
  ListTemp :: string
  ListPerm :: string
  Whitelist :: "string list"
  StateFile :: string
  Escalation :: "goint list"

text \<open>
  The RouterOS client is an external collaborator. It is a parameter of the loop: a value
  \<open>c\<close> of any type for the connection and a function \<open>runArgs\<close> that sends one
  sentence and answers with the connection afterwards and whether the call failed
  (\<open>True\<close> is \<^verbatim>\<open>err != nil\<close>). The record \<open>run\<close> holds what the loop changes: the
  counts, the connection, the sentences sent so far and the lines logged so far.
\<close>

datatype logline =
    LogInvalid
  | LogSkip string
  | LogPermanent string
  | LogAttempt string goint string
  | LogBlockFailed string

record 'c run =
  offenses :: state
  client :: 'c
  sent :: "string list list"
  logged :: "logline list"

definition directive :: "string \<Rightarrow> string \<Rightarrow> string \<Rightarrow> string list" where
  "directive list ip timeout =
     [''/ip/firewall/address-list/add'', ''=list='' @ list, ''=address='' @ ip,
      ''=timeout='' @ timeout]"

definition process_ip ::
  "Config \<Rightarrow> ('c \<Rightarrow> string list \<Rightarrow> 'c \<times> bool) \<Rightarrow> 'c run \<Rightarrow> string \<Rightarrow> panic + 'c run" where
  "process_ip cfg runArgs r raw =
     (let ip = sanitizeIP raw in
      if ip = [] then Inr (r\<lparr>logged := logged r @ [LogInvalid]\<rparr>)
      else if isWhitelisted ip (Whitelist cfg) then Inr (r\<lparr>logged := logged r @ [LogSkip ip]\<rparr>)
      else
        (case state_incr (offenses r) ip of
           Inl p \<Rightarrow> Inl p
         | Inr st \<Rightarrow>
            (case getTimeout (state_get st ip) (Escalation cfg) of
               Inl p \<Rightarrow> Inl p
             | Inr timeout \<Rightarrow>
                 if timeout = ''0'' then
                   (case runArgs (client r) (directive (ListPerm cfg) ip ''0'') of
                      (c, err) \<Rightarrow>
                        Inr (r\<lparr>offenses := st, client := c,
                               sent := sent r @ [directive (ListPerm cfg) ip ''0''],
                               logged := logged r @ [LogPermanent ip]\<rparr>))
                 else
                   (case runArgs (client r) (directive (ListTemp cfg) ip timeout) of
                      (c, err) \<Rightarrow>
                        Inr (r\<lparr>offenses := st, client := c,
                               sent := sent r @ [directive (ListTemp cfg) ip timeout],
                               logged := logged r @ [LogAttempt ip (state_get st ip) timeout]
                                          @ (if err then [LogBlockFailed ip] else [])\<rparr>)))))"

fun process_batch ::
  "Config \<Rightarrow> ('c \<Rightarrow> string list \<Rightarrow> 'c \<times> bool) \<Rightarrow> 'c run \<Rightarrow> string list \<Rightarrow> panic + 'c run" where
  "process_batch cfg runArgs r [] = Inr r"
| "process_batch cfg runArgs r (raw # ips) =
     (case process_ip cfg runArgs r raw of
        Inl p \<Rightarrow> Inl p
      | Inr r' \<Rightarrow> process_batch cfg runArgs r' ips)"



subsection \<open>The matching rule of the whitelist, as the specification words it\<close>

text \<open>
  An entry is trimmed first. An entry without a slash matches by equality of strings with
  the address. An entry with a slash matches when it parses as a CIDR network that
  contains the parsed address; an entry that does not parse matches nothing.
\<close>

definition entry_matches :: "string \<Rightarrow> string \<Rightarrow> bool" where
  "entry_matches ip e =
     (if strings_Contains (strings_TrimSpace e) ''/''
      then (case ParseCIDR (strings_TrimSpace e) of
              None \<Rightarrow> False
            | Some (_, cidr) \<Rightarrow>
                (case ParseIP ip of None \<Rightarrow> False | Some p \<Rightarrow> IPNet_Contains cidr p))
      else strings_TrimSpace e = ip)"

subsection \<open>A configuration for the examples\<close>

text \<open>The default \<^verbatim>\<open>config.env\<close> that \<^verbatim>\<open>ensureConfig\<close> writes, as loaded.\<close>

definition default_cfg :: Config where
  "default_cfg =
     \<lparr>MtHost = ''192.168.88.1:8728'', MtUser = ''admin'', MtPass = ''yourpassword'',
      ListTemp = ''blocked_attackers'', ListPerm = ''blocked_permanent'',
      Whitelist = [''8.8.8.8'', ''192.168.1.0/24''],
      StateFile = ''/opt/htb_blocker/state.json'', Escalation = [1, 3, 7]\<rparr>"

definition fresh_run :: "state \<Rightarrow> unit run" where
  "fresh_run st = \<lparr>offenses = st, client = (), sent = [], logged = []\<rparr>"

definition failing_applier :: "unit \<Rightarrow> string list \<Rightarrow> unit \<times> bool" where
  "failing_applier c args = (c, True)"


subsection \<open>Package unicode/utf8\<close>

text \<open>
  The length in bytes of the UTF-8 encoding that starts a string, 0 when the string does
  not start with a valid encoding (\<^verbatim>\<open>utf8.DecodeRuneInString\<close> then returns
  \<^verbatim>\<open>RuneError\<close> with width 1), and the bytes that \<^verbatim>\<open>utf8.AppendRune\<close>
  appends for a code point (\<open>EncodeRune\<close>).
\<close>

definition isCont :: "char \<Rightarrow> bool" where
  "isCont c = (CHR 0x80 \<le> c \<and> c \<le> CHR 0xBF)"

fun utf8_len :: "string \<Rightarrow> nat" where
  "utf8_len [] = 0"
| "utf8_len (b0 # rest) =
     (if b0 < CHR 0x80 then 1
      else if CHR 0xC2 \<le> b0 \<and> b0 \<le> CHR 0xDF then
        (case rest of b1 # _ \<Rightarrow> if isCont b1 then 2 else 0 | _ \<Rightarrow> 0)
      else if CHR 0xE0 \<le> b0 \<and> b0 \<le> CHR 0xEF then
        (case rest of
           b1 # b2 # _ \<Rightarrow>
             if (if b0 = CHR 0xE0 then CHR 0xA0 \<le> b1 \<and> b1 \<le> CHR 0xBF
                 else if b0 = CHR 0xED then CHR 0x80 \<le> b1 \<and> b1 \<le> CHR 0x9F
                 else isCont b1) \<and> isCont b2
             then 3 else 0
         | _ \<Rightarrow> 0)
      else if CHR 0xF0 \<le> b0 \<and> b0 \<le> CHR 0xF4 then
        (case rest of
           b1 # b2 # b3 # _ \<Rightarrow>
             if (if b0 = CHR 0xF0 then CHR 0x90 \<le> b1 \<and> b1 \<le> CHR 0xBF
                 else if b0 = CHR 0xF4 then CHR 0x80 \<le> b1 \<and> b1 \<le> CHR 0x8F
                 else isCont b1) \<and> isCont b2 \<and> isCont b3
             then 4 else 0
         | _ \<Rightarrow> 0)
      else 0)"

definition runeError :: string where
  "runeError = [CHR 0xEF, CHR 0xBF, CHR 0xBD]"

definition byte_char :: "int \<Rightarrow> char" where
  "byte_char n = char_of (nat n)"

definition EncodeRune :: "int \<Rightarrow> string" where
  "EncodeRune r =
     (if 0 \<le> r \<and> r \<le> 0x7F then [byte_char r]
      else if 0 \<le> r \<and> r \<le> 0x7FF then [byte_char (0xC0 + r div 64), byte_char (0x80 + r mod 64)]
      else if r < 0 \<or> r > 0x10FFFF \<or> (0xD800 \<le> r \<and> r \<le> 0xDFFF) then runeError
      else if r \<le> 0xFFFF then
        [byte_char (0xE0 + r div 4096), byte_char (0x80 + r div 64 mod 64), byte_char (0x80 + r mod 64)]
      else [byte_char (0xF0 + r div 262144), byte_char (0x80 + r div 4096 mod 64),
            byte_char (0x80 + r div 64 mod 64), byte_char (0x80 + r mod 64)])"

subsection \<open>Package encoding/json: the encoder\<close>

text \<open>
  \<^verbatim>\<open>json.MarshalIndent(s, "", "  ")\<close> for a \<^verbatim>\<open>map[string]int\<close>. A nil map is
  encoded as \<^verbatim>\<open>null\<close>, an empty map as \<^verbatim>\<open>{}\<close>; otherwise the keys are sorted
  bytewise and each member is written on a line of its own, indented by two spaces, as the
  quoted key, a colon, a space and the count in decimal. In a key the bytes below 0x20, the
  quote, the backslash and the characters \<open><\<close>, \<open>>\<close>, \<open>&\<close> are escaped, bytes that are
  not valid UTF-8 become \<^verbatim>\<open>\ufffd\<close>, and U+2028 and U+2029 are escaped.
  \<open>pending\<close> tells the byte-wise recursion how many bytes of a multi-byte character are
  still to be copied or skipped.
\<close>

definition htmlSafe :: "char \<Rightarrow> bool" where
  "htmlSafe c = (CHR 0x20 \<le> c \<and> c < CHR 0x80 \<and> c \<noteq> CHR 0x22 \<and> c \<noteq> CHR ''&''
                 \<and> c \<noteq> CHR ''<'' \<and> c \<noteq> CHR ''>'' \<and> c \<noteq> CHR 0x5C)"

definition escapeByte :: "char \<Rightarrow> string" where
  "escapeByte c =
     (if c = CHR 0x5C \<or> c = CHR 0x22 then [CHR 0x5C, c]
      else if c = CHR 0x08 then [CHR 0x5C, CHR ''b'']
      else if c = CHR 0x0C then [CHR 0x5C, CHR ''f'']
      else if c = CHR 0x0A then [CHR 0x5C, CHR ''n'']
      else if c = CHR 0x0D then [CHR 0x5C, CHR ''r'']
      else if c = CHR 0x09 then [CHR 0x5C, CHR ''t'']
      else [CHR 0x5C, CHR ''u'', CHR ''0'', CHR ''0'',
            digits ! (of_char c div 16), digits ! (of_char c mod 16)])"

datatype pending = Ready | Copy nat | Skip nat

fun appendString_go :: "pending \<Rightarrow> string \<Rightarrow> string" where
  "appendString_go p [] = []"
| "appendString_go (Copy n) (c # cs) = c # appendString_go (if n \<le> 1 then Ready else Copy (n - 1)) cs"
| "appendString_go (Skip n) (c # cs) = appendString_go (if n \<le> 1 then Ready else Skip (n - 1)) cs"
| "appendString_go Ready (c # cs) =
     (if c < CHR 0x80 then
        (if htmlSafe c then c # appendString_go Ready cs
         else escapeByte c @ appendString_go Ready cs)
      else if utf8_len (c # cs) = 0 then
        [CHR 0x5C, CHR ''u'', CHR ''f'', CHR ''f'', CHR ''f'', CHR ''d''] @ appendString_go Ready cs
      else if take 3 (c # cs) = [CHR 0xE2, CHR 0x80, CHR 0xA8] then
        [CHR 0x5C, CHR ''u'', CHR ''2'', CHR ''0'', CHR ''2'', CHR ''8''] @ appendString_go (Skip 2) cs
      else if take 3 (c # cs) = [CHR 0xE2, CHR 0x80, CHR 0xA9] then
        [CHR 0x5C, CHR ''u'', CHR ''2'', CHR ''0'', CHR ''2'', CHR ''9''] @ appendString_go (Skip 2) cs
      else c # appendString_go (Copy (utf8_len (c # cs) - 1)) cs)"

definition appendString :: "string \<Rightarrow> string" where
  "appendString s = [CHR 0x22] @ appendString_go Ready s @ [CHR 0x22]"

definition appendInt :: "goint \<Rightarrow> string" where
  "appendInt v = (if sint v < 0 then CHR ''-'' # decimal (- sint v) else decimal (sint v))"

definition sortedKeys :: "(string \<times> goint) list \<Rightarrow> string list" where
  "sortedKeys m = sort (remdups (map fst m))"

definition lookup :: "(string \<times> goint) list \<Rightarrow> string \<Rightarrow> goint" where
  "lookup m k = (case map_of m k of None \<Rightarrow> 0 | Some v \<Rightarrow> v)"

fun indentMembers :: "string list \<Rightarrow> string" where
  "indentMembers [] = []"
| "indentMembers [x] = [CHR 0x0A, CHR '' '', CHR '' ''] @ x @ [CHR 0x0A]"
| "indentMembers (x # y # ys) = [CHR 0x0A, CHR '' '', CHR '' ''] @ x @ '','' @ indentMembers (y # ys)"

definition MarshalIndent :: "state \<Rightarrow> string" where
  "MarshalIndent st =
     (case st of
        None \<Rightarrow> ''null''
      | Some m \<Rightarrow>
          ''{'' @ indentMembers (map (\<lambda>k. appendString k @ '': '' @ appendInt (lookup m k)) (sortedKeys m))
          @ ''}'')"

subsection \<open>Package encoding/json: the scanner and the decoder\<close>

text \<open>
  \<^verbatim>\<open>json.Unmarshal(raw, &s)\<close> with \<open>s\<close> a \<^verbatim>\<open>map[string]int\<close>. The scanner of
  \<^verbatim>\<open>scanner.go\<close> is a state machine over the bytes of the input: \<open>mode\<close> is its step
  function, \<open>parseState\<close> its stack of open objects and arrays (at most 10000 deep).
  The decoder reads the same bytes; the model records on the scanner what the decoder takes
  from them: the kind of the top-level value (\<open>top\<close>) and, for a top-level object, each
  member in order with its unquoted key, the kind of its value and the literal of the value
  (\<open>members\<close>).
\<close>

datatype frame = ObjectKey | ObjectValue | ArrayValue

datatype jmode =
    BeginValue | BeginValueOrEmpty | BeginStringOrEmpty | BeginString
  | EndValue | EndTop
  | InString | InStringEsc | InStringEscU nat
  | Neg | Num0 | Num1 | Dot | Dot0 | NumE | NumESign | NumE0
  | Lit string
  | ScanError

datatype jval = VNum | VNull | VOther

datatype jtop = TopObject | TopNull | TopOther

record scanner =
  mode :: jmode
  parseState :: "frame list"
  lit :: string
  mkey :: string
  cls :: jval
  members :: "(string \<times> jval \<times> string) list"
  top :: "jtop option"

definition isSpace :: "char \<Rightarrow> bool" where
  "isSpace c = (c = CHR '' '' \<or> c = CHR 0x09 \<or> c = CHR 0x0D \<or> c = CHR 0x0A)"

definition hexDigitValue :: "char \<Rightarrow> int" where
  "hexDigitValue c = (case hexVal c of None \<Rightarrow> - 1 | Some v \<Rightarrow> int v)"

definition getu4 :: "string \<Rightarrow> int" where
  "getu4 s =
     (case s of
        c0 # c1 # h1 # h2 # h3 # h4 # _ \<Rightarrow>
          if c0 = CHR 0x5C \<and> c1 = CHR ''u'' \<and> isHexDigit h1 \<and> isHexDigit h2
             \<and> isHexDigit h3 \<and> isHexDigit h4
          then ((hexDigitValue h1 * 16 + hexDigitValue h2) * 16 + hexDigitValue h3) * 16 + hexDigitValue h4
          else - 1
      | _ \<Rightarrow> - 1)"

definition unescape :: "char \<Rightarrow> char" where
  "unescape c =
     (if c = CHR ''b'' then CHR 0x08 else if c = CHR ''f'' then CHR 0x0C
      else if c = CHR ''n'' then CHR 0x0A else if c = CHR ''r'' then CHR 0x0D
      else if c = CHR ''t'' then CHR 0x09 else c)"

fun unquote_go :: "pending \<Rightarrow> string \<Rightarrow> string" where
  "unquote_go p [] = []"
| "unquote_go (Copy n) (c # cs) = c # unquote_go (if n \<le> 1 then Ready else Copy (n - 1)) cs"
| "unquote_go (Skip n) (c # cs) = unquote_go (if n \<le> 1 then Ready else Skip (n - 1)) cs"
| "unquote_go Ready (c # cs) =
     (if c = CHR 0x5C then
        (case cs of
           [] \<Rightarrow> []
         | e # rest \<Rightarrow>
             if e = CHR ''u'' then
               (let rr = getu4 (c # cs); rr1 = getu4 (drop 5 cs) in
                if 0xD800 \<le> rr \<and> rr < 0xDC00 \<and> 0xDC00 \<le> rr1 \<and> rr1 < 0xE000
                then EncodeRune ((rr - 0xD800) * 1024 + (rr1 - 0xDC00) + 0x10000)
                       @ unquote_go (Skip 11) cs
                else EncodeRune rr @ unquote_go (Skip 5) cs)
             else unescape e # unquote_go (Skip 1) cs)
      else if c < CHR 0x80 then c # unquote_go Ready cs
      else if utf8_len (c # cs) = 0 then runeError @ unquote_go Ready cs
      else c # unquote_go (Copy (utf8_len (c # cs) - 1)) cs)"

definition unquote :: "string \<Rightarrow> string" where
  "unquote s = unquote_go Ready s"

definition scanError :: "scanner \<Rightarrow> scanner" where
  "scanError s = s\<lparr>mode := ScanError\<rparr>"

definition popParseState :: "scanner \<Rightarrow> scanner" where
  "popParseState s =
     (case tl (parseState s) of
        [] \<Rightarrow> s\<lparr>parseState := [], mode := EndTop\<rparr>
      | f # fs \<Rightarrow> s\<lparr>parseState := f # fs, mode := EndValue\<rparr>)"

definition pushParseState :: "scanner \<Rightarrow> frame \<Rightarrow> jmode \<Rightarrow> scanner" where
  "pushParseState s f m =
     (if length (f # parseState s) \<le> 10000
      then s\<lparr>parseState := f # parseState s, mode := m\<rparr>
      else scanError s)"

definition recordMember :: "scanner \<Rightarrow> scanner" where
  "recordMember s =
     (if parseState s = [ObjectValue]
      then s\<lparr>members := members s @ [(mkey s, cls s, lit s)]\<rparr>
      else s)"

definition stateEndValue :: "scanner \<Rightarrow> char \<Rightarrow> scanner" where
  "stateEndValue s c =
     (case parseState s of
        [] \<Rightarrow> if isSpace c then s\<lparr>mode := EndTop\<rparr> else scanError s
      | ps # rest \<Rightarrow>
          if isSpace c then s\<lparr>mode := EndValue\<rparr>
          else (case ps of
             ObjectKey \<Rightarrow>
               if c = CHR '':'' then s\<lparr>parseState := ObjectValue # rest, mode := BeginValue\<rparr>
               else scanError s
           | ObjectValue \<Rightarrow>
               if c = CHR '','' then (recordMember s)\<lparr>parseState := ObjectKey # rest, mode := BeginString\<rparr>
               else if c = CHR ''}'' then popParseState (recordMember s)
               else scanError s
           | ArrayValue \<Rightarrow>
               if c = CHR '','' then s\<lparr>mode := BeginValue\<rparr>
               else if c = CHR '']'' then popParseState s
               else scanError s))"

definition noteValue :: "scanner \<Rightarrow> char \<Rightarrow> scanner" where
  "noteValue s c =
     (if parseState s = [] then
        s\<lparr>top := Some (if c = CHR ''{'' then TopObject else if c = CHR ''n'' then TopNull else TopOther)\<rparr>
      else if parseState s = [ObjectValue] then
        s\<lparr>cls := (if c = CHR ''-'' \<or> isDigit c then VNum else if c = CHR ''n'' then VNull else VOther)\<rparr>
      else s)"

definition stateBeginValue :: "scanner \<Rightarrow> char \<Rightarrow> scanner" where
  "stateBeginValue s0 c =
     (if isSpace c then s0
      else (let s = noteValue s0 c in
        if c = CHR ''{'' then pushParseState s ObjectKey BeginStringOrEmpty
        else if c = CHR ''['' then pushParseState s ArrayValue BeginValueOrEmpty
        else if c = CHR 0x22 then s\<lparr>mode := InString, lit := []\<rparr>
        else if c = CHR ''-'' then s\<lparr>mode := Neg, lit := [c]\<rparr>
        else if c = CHR ''0'' then s\<lparr>mode := Num0, lit := [c]\<rparr>
        else if c = CHR ''t'' then s\<lparr>mode := Lit ''rue'', lit := [c]\<rparr>
        else if c = CHR ''f'' then s\<lparr>mode := Lit ''alse'', lit := [c]\<rparr>
        else if c = CHR ''n'' then s\<lparr>mode := Lit ''ull'', lit := [c]\<rparr>
        else if CHR ''1'' \<le> c \<and> c \<le> CHR ''9'' then s\<lparr>mode := Num1, lit := [c]\<rparr>
        else scanError s))"

definition state0 :: "scanner \<Rightarrow> char \<Rightarrow> scanner" where
  "state0 s c =
     (if c = CHR ''.'' then s\<lparr>mode := Dot, lit := lit s @ [c]\<rparr>
      else if c = CHR ''e'' \<or> c = CHR ''E'' then s\<lparr>mode := NumE, lit := lit s @ [c]\<rparr>
      else stateEndValue s c)"

definition step :: "scanner \<Rightarrow> char \<Rightarrow> scanner" where
  "step s c =
     (case mode s of
        BeginValue \<Rightarrow> stateBeginValue s c
      | BeginValueOrEmpty \<Rightarrow>
          if isSpace c then s else if c = CHR '']'' then stateEndValue s c else stateBeginValue s c
      | BeginStringOrEmpty \<Rightarrow>
          if isSpace c then s
          else if c = CHR ''}'' then popParseState s
          else if c = CHR 0x22 then s\<lparr>mode := InString, lit := []\<rparr>
          else scanError s
      | BeginString \<Rightarrow>
          if isSpace c then s
          else if c = CHR 0x22 then s\<lparr>mode := InString, lit := []\<rparr>
          else scanError s
      | EndValue \<Rightarrow> stateEndValue s c
      | EndTop \<Rightarrow> if isSpace c then s else scanError s
      | InString \<Rightarrow>
          if c = CHR 0x22 then
            (if parseState s = [ObjectKey] then s\<lparr>mode := EndValue, mkey := unquote (lit s)\<rparr>
             else s\<lparr>mode := EndValue\<rparr>)
          else if c = CHR 0x5C then s\<lparr>mode := InStringEsc, lit := lit s @ [c]\<rparr>
          else if c < CHR 0x20 then scanError s
          else s\<lparr>lit := lit s @ [c]\<rparr>
      | InStringEsc \<Rightarrow>
          if c \<in> set [CHR ''b'', CHR ''f'', CHR ''n'', CHR ''r'', CHR ''t'', CHR 0x5C, CHR ''/'', CHR 0x22]
          then s\<lparr>mode := InString, lit := lit s @ [c]\<rparr>
          else if c = CHR ''u'' then s\<lparr>mode := InStringEscU 4, lit := lit s @ [c]\<rparr>
          else scanError s
      | InStringEscU n \<Rightarrow>
          if isHexDigit c
          then s\<lparr>mode := (if n \<le> 1 then InString else InStringEscU (n - 1)), lit := lit s @ [c]\<rparr>
          else scanError s
      | Neg \<Rightarrow>
          if c = CHR ''0'' then s\<lparr>mode := Num0, lit := lit s @ [c]\<rparr>
          else if CHR ''1'' \<le> c \<and> c \<le> CHR ''9'' then s\<lparr>mode := Num1, lit := lit s @ [c]\<rparr>
          else scanError s
      | Num1 \<Rightarrow> if isDigit c then s\<lparr>lit := lit s @ [c]\<rparr> else state0 s c
      | Num0 \<Rightarrow> state0 s c
      | Dot \<Rightarrow> if isDigit c then s\<lparr>mode := Dot0, lit := lit s @ [c]\<rparr> else scanError s
      | Dot0 \<Rightarrow>
          if isDigit c then s\<lparr>lit := lit s @ [c]\<rparr>
          else if c = CHR ''e'' \<or> c = CHR ''E'' then s\<lparr>mode := NumE, lit := lit s @ [c]\<rparr>
          else stateEndValue s c
      | NumE \<Rightarrow>
          if c = CHR ''+'' \<or> c = CHR ''-'' then s\<lparr>mode := NumESign, lit := lit s @ [c]\<rparr>
          else if isDigit c then s\<lparr>mode := NumE0, lit := lit s @ [c]\<rparr>
          else scanError s
      | NumESign \<Rightarrow> if isDigit c then s\<lparr>mode := NumE0, lit := lit s @ [c]\<rparr> else scanError s
      | NumE0 \<Rightarrow> if isDigit c then s\<lparr>lit := lit s @ [c]\<rparr> else stateEndValue s c
      | Lit expect \<Rightarrow>
          (case expect of
             [] \<Rightarrow> scanError s
           | x # xs \<Rightarrow>
               if c = x then s\<lparr>mode := (if xs = [] then EndValue else Lit xs)\<rparr> else scanError s)
      | ScanError \<Rightarrow> s)"

text \<open>
  \<^verbatim>\<open>checkValid\<close> runs the scanner over the input and then signals the end of the input,
  which is accepted when the top-level value is complete.
\<close>

definition scan_init :: scanner where
  "scan_init = \<lparr>mode = BeginValue, parseState = [], lit = [], mkey = [], cls = VOther,
                 members = [], top = None\<rparr>"

definition scan :: "string \<Rightarrow> scanner" where
  "scan data = foldl step scan_init data"

definition checkValid :: "scanner \<Rightarrow> bool" where
  "checkValid s =
     (if mode s = ScanError then False
      else if mode s = EndTop then True
      else mode (step s (CHR '' '')) = EndTop)"

text \<open>\<^verbatim>\<open>strconv.ParseInt(s, 10, 64)\<close>: \<open>None\<close> for a syntax error or a value out of range.\<close>

definition ParseInt :: "string \<Rightarrow> int option" where
  "ParseInt s =
     (case s of
        [] \<Rightarrow> None
      | c # ds \<Rightarrow>
          if c = CHR ''-'' \<or> c = CHR ''+'' then
            (if ds \<noteq> [] \<and> list_all isDigit ds then
               (if c = CHR ''-'' then (if decimalValue ds \<le> 2 ^ 63 then Some (- decimalValue ds) else None)
                else (if decimalValue ds < 2 ^ 63 then Some (decimalValue ds) else None))
             else None)
          else if list_all isDigit s \<and> decimalValue s < 2 ^ 63 then Some (decimalValue s)
          else None)"

text \<open>
  The decoder. Invalid syntax leaves the destination as it is and returns a syntax error.
  The value \<^verbatim>\<open>null\<close> sets the map to nil. An object allocates the map when it is nil and
  stores each member: a number that is an \<^verbatim>\<open>int\<close> is stored as it is; \<^verbatim>\<open>null\<close>
  stores the zero value; any other value stores the zero value too and makes the call return
  an \<^verbatim>\<open>UnmarshalTypeError\<close> once the whole input has been decoded. Any other top-level
  value leaves the destination as it is and returns an \<^verbatim>\<open>UnmarshalTypeError\<close>.
\<close>

datatype jerror = SyntaxError | UnmarshalTypeError

definition memberValue :: "jval \<Rightarrow> string \<Rightarrow> goint \<times> bool" where
  "memberValue c l =
     (case c of
        VNull \<Rightarrow> (0, False)
      | VOther \<Rightarrow> (0, True)
      | VNum \<Rightarrow> (case ParseInt l of None \<Rightarrow> (0, True) | Some v \<Rightarrow> (of_int v, False)))"

definition storeMember :: "(string \<times> goint) list \<Rightarrow> string \<times> jval \<times> string \<Rightarrow> (string \<times> goint) list" where
  "storeMember m e = (case e of (k, c, l) \<Rightarrow> AList.update k (fst (memberValue c l)) m)"

definition Unmarshal :: "string \<Rightarrow> state \<Rightarrow> state \<times> jerror option" where
  "Unmarshal data st =
     (let s = scan data in
      if \<not> checkValid s then (st, Some SyntaxError)
      else (case top s of
              Some TopNull \<Rightarrow> (None, None)
            | Some TopObject \<Rightarrow>
                (Some (foldl storeMember (case st of None \<Rightarrow> [] | Some m \<Rightarrow> m) (members s)),
                 if list_ex (\<lambda>(k, c, l). snd (memberValue c l)) (members s)
                 then Some UnmarshalTypeError else None)
            | _ \<Rightarrow> (st, Some UnmarshalTypeError)))"

subsection \<open>Package os: reading and writing a file\<close>

text \<open>
  A file system gives for each path what is found there: nothing, a readable file with its
  content, or something that can be neither read nor written (a directory, a file without
  permission). \<open>creatable\<close> tells whether a file can be created at a path where nothing is.
  \<^verbatim>\<open>os.ReadFile\<close> returns the content or an error; \<^verbatim>\<open>os.WriteFile\<close> replaces the
  content, creating the file when needed, or fails and leaves the file system as it is.
\<close>

datatype fsentry = Absent | File string | Inaccessible

datatype oserror = ErrNotExist | ErrOther

record filesys =
  entry :: "string \<Rightarrow> fsentry"
  creatable :: "string \<Rightarrow> bool"

definition ReadFile :: "filesys \<Rightarrow> string \<Rightarrow> oserror + string" where
  "ReadFile fs path =
     (case entry fs path of
        Absent \<Rightarrow> Inl ErrNotExist
      | Inaccessible \<Rightarrow> Inl ErrOther
      | File raw \<Rightarrow> Inr raw)"

definition WriteFile :: "filesys \<Rightarrow> string \<Rightarrow> string \<Rightarrow> filesys \<times> oserror option" where
  "WriteFile fs path b =
     (case entry fs path of
        File old \<Rightarrow> (fs\<lparr>entry := (entry fs)(path := File b)\<rparr>, None)
      | Absent \<Rightarrow>
          if creatable fs path then (fs\<lparr>entry := (entry fs)(path := File b)\<rparr>, None)
          else (fs, Some ErrNotExist)
      | Inaccessible \<Rightarrow> (fs, Some ErrOther))"

subsection \<open>Loading and saving the counts\<close>

text \<open>
  \<^verbatim>\<open>loadState\<close>, lines 216 to 228: a missing file gives a new empty map and no error, any
  other read error gives the nil map and the error; otherwise the content is decoded into
  a nil map, the error of \<^verbatim>\<open>json.Unmarshal\<close> is dropped, and the map is returned with no
  error. \<^verbatim>\<open>saveState\<close>, lines 230 to 233, drops the error of \<^verbatim>\<open>os.WriteFile\<close>
  (\<^verbatim>\<open>MarshalIndent\<close> cannot fail on a \<^verbatim>\<open>map[string]int\<close>).
\<close>

definition loadState :: "filesys \<Rightarrow> string \<Rightarrow> state \<times> oserror option" where
  "loadState fs path =
     (case ReadFile fs path of
        Inl err \<Rightarrow> if err = ErrNotExist then (Some [], None) else (None, Some err)
      | Inr raw \<Rightarrow> (fst (Unmarshal raw None), None))"

definition saveState :: "filesys \<Rightarrow> string \<Rightarrow> state \<Rightarrow> filesys" where
  "saveState fs path s = fst (WriteFile fs path (MarshalIndent s))"

text \<open>Two states are the same mapping: both nil, or both allocated and equal at every key of either.\<close>

definition same_mapping :: "state \<Rightarrow> state \<Rightarrow> bool" where
  "same_mapping a b =
     (case (a, b) of
        (None, None) \<Rightarrow> True
      | (Some m, Some m') \<Rightarrow> list_all (\<lambda>k. map_of m k = map_of m' k) (map fst m @ map fst m')
      | _ \<Rightarrow> False)"

text \<open>The addresses that have an entry in the state.\<close>

definition state_keys :: "state \<Rightarrow> string set" where
  "state_keys st = (case st of None \<Rightarrow> {} | Some m \<Rightarrow> fst ` set m)"

subsection \<open>File systems for the examples\<close>

text \<open>
  A file system with the state file of the default configuration holding \<open>raw\<close> and
  nothing else, where no file can be created; and a state file whose second member is not
  a count.
\<close>

definition state_file :: "string \<Rightarrow> filesys" where
  "state_file raw =
     \<lparr>entry = (\<lambda>p. if p = StateFile default_cfg then File raw else Absent),
      creatable = (\<lambda>p. False)\<rparr>"

definition mixed_content :: string where
  "mixed_content = [CHR ''{'', CHR 0x22] @ ''198.51.100.50'' @ [CHR 0x22] @ '': 3, ''
                   @ [CHR 0x22, CHR ''x'', CHR 0x22] @ '': '' @ [CHR 0x22] @ ''bad'' @ [CHR 0x22, CHR ''}'']"

subsection \<open>Notions used in the proofs about persistence\<close>

text \<open>
  The scanner is inside the top-level object and expects a key; and the text of a member up
  to its value.
\<close>

definition at_key :: "scanner \<Rightarrow> bool" where
  "at_key s = ((mode s = BeginString \<or> mode s = BeginStringOrEmpty) \<and> parseState s = [ObjectKey]
               \<and> top s = Some TopObject)"

definition memberHead :: "string \<Rightarrow> string" where
  "memberHead k = [CHR 0x0A, CHR '' '', CHR '' ''] @ appendString k @ '': ''"

subsection \<open>Notions used in the proofs about normalisation\<close>

text \<open>The characters of a canonical address: lower-case hexadecimal digits, colon and dot.\<close>

definition ipchars :: "char set" where
  "ipchars = set ''0123456789abcdef:.''"

text \<open>The two bytes of a 16-bit group, high byte first, and the bytes of a list of groups.\<close>

definition groupBytes :: "int \<Rightarrow> byte list" where
  "groupBytes x = [of_int (x div 256), of_int x]"

definition groupsBytes :: "int list \<Rightarrow> byte list" where
  "groupsBytes gs = concat (map groupBytes gs)"

text \<open>What the scan for the longest run of zero groups keeps true of its result: either no run was chosen (both marks are 255), or the marks bound a run of two or more zero groups that starts before group 8.\<close>

definition zerosInv :: "int list \<Rightarrow> nat \<times> nat \<Rightarrow> bool" where
  "zerosInv g z = (case z of (zs, ze) \<Rightarrow>
      (zs = 255 \<and> ze = 255) \<or> (zs < 8 \<and> ze = zs + zeroRun g zs \<and> 2 \<le> zeroRun g zs))"

text \<open>The IPv6 text of an address given by its eight groups; \<^const>\<open>string6\<close> is this function on the groups of the sixteen bytes.\<close>

definition string6g :: "int list \<Rightarrow> string" where
  "string6g g =
     (case longestZeros g of (zeroStart, zeroEnd) \<Rightarrow>
        if zeroStart < 8
        then joinColon (map appendHex (take zeroStart g)) @ ''::'' @
             joinColon (map appendHex (drop zeroEnd g))
        else joinColon (map appendHex g))"

text \<open>Every group is a 16-bit value.\<close>

definition inRange :: "int list \<Rightarrow> bool" where
  "inRange gs = (\<forall>g\<in>set gs. 0 \<le> g \<and> g < 65536)"

section \<open>Properties of the escalation decision\<close>

lemma sint_pred: "1 \<le> sint (c::goint) \<Longrightarrow> sint (c - 1) = sint c - 1"
  using sint_lt[of c] by (simp add: sint_word_ariths signed_take_bit_int_eq_self)

lemma digits_0: "digits ! 0 = CHR ''0''"
  by (simp add: digits_def)

lemma decimal_small: "n < 10 \<Longrightarrow> decimal n = [digits ! nat n]"
  by (subst decimal.simps) simp

lemma decimal_two:
  "10 \<le> n \<Longrightarrow> n < 100 \<Longrightarrow> decimal n = [digits ! nat (n div 10), digits ! nat (n mod 10)]"
  by (subst decimal.simps) (simp add: decimal_small)

lemma sprintf_02d_two_digits:
  assumes "0 \<le> sint h" "sint h < 100"
  shows "sprintf_02d h = [digits ! nat (sint h div 10), digits ! nat (sint h mod 10)]"
proof (cases "sint h < 10")
  case True
  then show ?thesis using assms by (simp add: sprintf_02d_def decimal_small digits_0)
next
  case False
  then have "10 \<le> sint h" "sint h < 100" using assms by auto
  then show ?thesis using assms by (simp add: sprintf_02d_def decimal_two)
qed

lemma nat_lt_10_cases: "k < 10 \<Longrightarrow> k \<in> {0,1,2,3,4,5,6,7,8,9::nat}"
  by auto

lemma digits_dec: "k < 10 \<Longrightarrow> isDigit (digits ! k) \<and> digitVal (digits ! k) = k"
  by (drule nat_lt_10_cases) (auto simp: digits_def isDigit_def digitVal_def less_eq_char_def)

lemma digits_zero_iff: "k < 10 \<Longrightarrow> digits ! k = CHR ''0'' \<longleftrightarrow> k = 0"
  by (drule nat_lt_10_cases) (auto simp: digits_def)

lemma decimalValue_snoc: "decimalValue (ds @ [c]) = decimalValue ds * 10 + int (digitVal c)"
  by (simp add: decimalValue_def)

lemma decimal_spec:
  "0 \<le> n \<Longrightarrow> decimal n \<noteq> [] \<and> list_all isDigit (decimal n) \<and> decimalValue (decimal n) = n
     \<and> (0 < n \<longrightarrow> hd (decimal n) \<noteq> CHR ''0'')"
proof (induction n rule: decimal.induct)
  case (1 n)
  show ?case
  proof (cases "n < 10")
    case True
    then have d: "decimal n = [digits ! nat n]" by (rule decimal_small)
    have "nat n < 10" using True by simp
    then show ?thesis using digits_dec[of "nat n"] digits_zero_iff[of "nat n"] "1.prems"
      by (simp add: d decimalValue_def)
  next
    case False
    then have d: "decimal n = decimal (n div 10) @ [digits ! nat (n mod 10)]"
      by (subst decimal.simps) simp
    have ih: "decimal (n div 10) \<noteq> [] \<and> list_all isDigit (decimal (n div 10))
         \<and> decimalValue (decimal (n div 10)) = n div 10
         \<and> (0 < n div 10 \<longrightarrow> hd (decimal (n div 10)) \<noteq> CHR ''0'')"
      using "1.IH"[OF False] "1.prems" by simp
    have m: "nat (n mod 10) < 10" by simp
    have pos: "0 < n div 10" using False by simp
    show ?thesis using ih pos digits_dec[OF m]
      by (simp add: d decimalValue_snoc)
  qed
qed

lemma decimal_length3: "100 \<le> n \<Longrightarrow> 3 \<le> length (decimal n)"
proof -
  assume a: "100 \<le> n"
  have d1: "decimal n = decimal (n div 10) @ [digits ! nat (n mod 10)]"
    using a by (subst decimal.simps) simp
  have d2: "decimal (n div 10) = decimal (n div 10 div 10) @ [digits ! nat (n div 10 mod 10)]"
    using a by (subst decimal.simps) simp
  have "decimal (n div 10 div 10) \<noteq> []"
    using decimal_spec[of "n div 10 div 10"] a by simp
  then have "1 \<le> length (decimal (n div 10 div 10))" by (cases "decimal (n div 10 div 10)") auto
  then show ?thesis by (simp add: d1 d2)
qed

text \<open>
  C1, amended. For every schedule and every count \<open>c\<close> with \<open>1 \<le> c \<le> length schedule\<close>,
  \<^verbatim>\<open>getTimeout\<close> returns the timed outcome for the entry \<open>schedule[c-1]\<close>, the hour
  field followed by \<open>:00:00\<close>. For an entry from 0 to 99 the hour field is exactly its
  two decimal digits, tens first. For an entry of 100 or more it is the decimal numeral of
  the entry, three digits or more with no leading zero. For a negative entry it is a minus
  sign and the decimal numeral of the absolute value.
\<close>

theorem getTimeout_hour_field:
  assumes "1 \<le> sint c" and "sint c \<le> int (length schedule)"
  shows "(0 \<le> sint (schedule ! (nat (sint c) - 1)) \<and> sint (schedule ! (nat (sint c) - 1)) < 100 \<longrightarrow>
            getTimeout c schedule =
              Inr ([digits ! nat (sint (schedule ! (nat (sint c) - 1)) div 10),
                    digits ! nat (sint (schedule ! (nat (sint c) - 1)) mod 10)] @ '':00:00''))
       \<and> (100 \<le> sint (schedule ! (nat (sint c) - 1)) \<longrightarrow>
            (\<exists>ds. getTimeout c schedule = Inr (ds @ '':00:00'') \<and> list_all isDigit ds
                  \<and> decimalValue ds = sint (schedule ! (nat (sint c) - 1))
                  \<and> 3 \<le> length ds \<and> hd ds \<noteq> CHR ''0''))
       \<and> (sint (schedule ! (nat (sint c) - 1)) < 0 \<longrightarrow>
            (\<exists>ds. getTimeout c schedule = Inr (CHR ''-'' # ds @ '':00:00'') \<and> list_all isDigit ds
                  \<and> decimalValue ds = - sint (schedule ! (nat (sint c) - 1))
                  \<and> ds \<noteq> [] \<and> hd ds \<noteq> CHR ''0''))"
proof -
  let ?h = "schedule ! (nat (sint c) - 1)"
  have idx: "nat (sint c - 1) = nat (sint c) - 1"
    using assms(1) by (simp add: nat_diff_distrib)
  have g: "getTimeout c schedule = Inr (sprintf_02d ?h @ '':00:00'')"
    using assms by (simp add: getTimeout_def sint_pred idx)
  have two: "0 \<le> sint ?h \<and> sint ?h < 100 \<longrightarrow>
        sprintf_02d ?h = [digits ! nat (sint ?h div 10), digits ! nat (sint ?h mod 10)]"
    using sprintf_02d_two_digits by blast
  have big: "100 \<le> sint ?h \<longrightarrow> sprintf_02d ?h = decimal (sint ?h)"
    using decimal_length3[of "sint ?h"] by (auto simp: sprintf_02d_def)
  have neg: "sint ?h < 0 \<longrightarrow> sprintf_02d ?h = CHR ''-'' # decimal (- sint ?h)"
    by (simp add: sprintf_02d_def)
  show ?thesis
    using g two big neg decimal_spec[of "sint ?h"] decimal_spec[of "- sint ?h"]
      decimal_length3[of "sint ?h"]
    by auto
qed

theorem getTimeout_hour_field_witness:
  "1 \<le> sint (2::goint) \<and> sint (2::goint) \<le> int (length [1, 3, 7 :: goint])
   \<and> 0 \<le> sint ([1, 3, 7 :: goint] ! (nat (sint (2::goint)) - 1))
   \<and> sint ([1, 3, 7 :: goint] ! (nat (sint (2::goint)) - 1)) < 100
   \<and> getTimeout 2 [1, 3, 7] = Inr ''03:00:00''"
proof -
  have h1: "1 \<le> sint (2::goint)" by simp
  have h2: "sint (2::goint) \<le> int (length [1, 3, 7 :: goint])" by simp
  have r: "0 \<le> sint ([1, 3, 7 :: goint] ! (nat (sint (2::goint)) - 1))"
          "sint ([1, 3, 7 :: goint] ! (nat (sint (2::goint)) - 1)) < 100" by simp_all
  have "getTimeout 2 [1, 3, 7] =
          Inr ([digits ! nat (sint ([1, 3, 7 :: goint] ! (nat (sint (2::goint)) - 1)) div 10),
                digits ! nat (sint ([1, 3, 7 :: goint] ! (nat (sint (2::goint)) - 1)) mod 10)] @ '':00:00'')"
    using getTimeout_hour_field [OF h1 h2] r by blast
  then show ?thesis using h1 h2 by (simp add: digits_def)
qed

text \<open>
  C1, as stated, for every schedule: refuted by an entry of 100 hours, printed with three
  digits, and by an entry of \<open>-5\<close> hours, printed with its sign. \<^verbatim>\<open>loadConfig\<close>
  takes both from \<^verbatim>\<open>ESCALATE_n\<close> unchecked.
\<close>

theorem getTimeout_two_digit_counterexample:
  "getTimeout 3 [1, 3, 100] = Inr ''100:00:00'' \<and> getTimeout 1 [- 5] = Inr ''-5:00:00''"
  by code_simp

text \<open>
  C2. For every schedule and every count above its length, \<^verbatim>\<open>getTimeout\<close> returns the
  permanent sentinel \<open>0\<close>, whatever the count; with the empty schedule every count from 1
  on is permanent.
\<close>

theorem getTimeout_permanent:
  "(int (length schedule) < sint c \<longrightarrow> getTimeout c schedule = Inr ''0'')
   \<and> (1 \<le> sint c \<longrightarrow> getTimeout c [] = Inr ''0'')"
  by (simp add: getTimeout_def)

theorem getTimeout_permanent_witness:
  "int (length [1, 3, 7 :: goint]) < sint (4 :: goint) \<and> getTimeout 4 [1, 3, 7] = Inr ''0''
   \<and> 1 \<le> sint (1 :: goint) \<and> getTimeout 1 [] = Inr ''0''"
  using getTimeout_permanent [of "[1, 3, 7]" 4] getTimeout_permanent [of "[]" 1] by simp

lemma getTimeout_returns: "1 \<le> sint c \<Longrightarrow> \<exists>t. getTimeout c schedule = Inr t"
  by (simp add: getTimeout_def sint_pred)

text \<open>
  C6. \<^verbatim>\<open>getTimeout\<close> is a function of its two arguments and reads no other state. On
  its stated precondition, a count of 1 or more, it returns a result for every schedule:
  the index \<open>count - 1\<close> is then inside the schedule whenever the guard holds.
\<close>

theorem getTimeout_total_from_one:
  "1 \<le> sint c \<Longrightarrow> \<exists>t. getTimeout c schedule = Inr t"
  by (rule getTimeout_returns)

theorem getTimeout_total_from_one_witness:
  "1 \<le> sint (1 :: goint) \<and> (\<exists>t. getTimeout 1 [1, 3, 7] = Inr t)"
  using getTimeout_total_from_one [of 1 "[1, 3, 7]"] by simp

text \<open>
  Outside the precondition the function has no guard of its own: with count 0 the test
  \<^verbatim>\<open>count <= len(hours)\<close> holds and \<^verbatim>\<open>hours[count-1]\<close> reads index \<open>-1\<close>.
\<close>

lemma getTimeout_count_zero: "getTimeout 0 [1, 3, 7] = Inl IndexOutOfRange"
  by (simp add: getTimeout_def)

section \<open>Properties of the whitelist\<close>

lemma ParseIP_Nil: "ParseIP [] = None"
  by (simp add: ParseIP_def ParseAddr_def)

lemma isWhitelisted_loop_iff:
  "ParseIP ip = Some p \<Longrightarrow> isWhitelisted_loop ip p wl = list_ex (entry_matches ip) wl"
  by (induction wl) (auto simp: entry_matches_def Let_def split: option.splits)

lemma isWhitelisted_iff:
  "isWhitelisted ip wl = (ParseIP ip \<noteq> None \<and> list_ex (entry_matches ip) wl)"
  by (cases "ParseIP ip") (simp_all add: isWhitelisted_def isWhitelisted_loop_iff)

text \<open>
  C10. A string that does not parse as an IP address is never whitelisted, also when the
  whitelist holds that very string: the parse check comes first.
\<close>

theorem isWhitelisted_unparsed:
  "ParseIP ip = None \<Longrightarrow> \<not> isWhitelisted ip wl"
  by (simp add: isWhitelisted_def)

theorem isWhitelisted_unparsed_witness:
  "ParseIP ''not-an-ip'' = None \<and> \<not> isWhitelisted ''not-an-ip'' [''not-an-ip'']"
proof -
  have h: "ParseIP ''not-an-ip'' = None" by code_simp
  show ?thesis using h isWhitelisted_unparsed [OF h, of "[''not-an-ip'']"] by simp
qed

text \<open>
  C5. For every address that parses (every canonical address does) and every whitelist,
  \<^verbatim>\<open>isWhitelisted\<close> is true exactly when some entry matches by the rule above:
  equality of strings for a trimmed entry without a slash, containment for an entry
  that parses as CIDR, and no match (no error) for an entry with a slash that does not
  parse. One matching entry decides, whatever stands before or after it.
\<close>

theorem isWhitelisted_matching_rule:
  assumes "ParseIP ip \<noteq> None"
  shows "isWhitelisted ip wl = list_ex (entry_matches ip) wl
       \<and> (entry_matches ip e \<longrightarrow> isWhitelisted ip (pre @ e # post))"
  using assms by (simp add: isWhitelisted_iff)

theorem isWhitelisted_matching_rule_witness:
  "ParseIP ''192.168.1.50'' \<noteq> None
   \<and> entry_matches ''192.168.1.50'' '' 192.168.1.0/24''
   \<and> \<not> entry_matches ''192.168.1.50'' ''junk/24''
   \<and> isWhitelisted ''192.168.1.50'' [''junk/24'', ''8.8.8.8'', '' 192.168.1.0/24'', ''10.0.0.0/8'']"
proof -
  have h: "ParseIP ''192.168.1.50'' \<noteq> None" by code_simp
  have m: "entry_matches ''192.168.1.50'' '' 192.168.1.0/24''" by code_simp
  have n: "\<not> entry_matches ''192.168.1.50'' ''junk/24''" by code_simp
  have "isWhitelisted ''192.168.1.50'' ([''junk/24'', ''8.8.8.8''] @ '' 192.168.1.0/24'' # [''10.0.0.0/8''])"
    using isWhitelisted_matching_rule
      [OF h, where e = "'' 192.168.1.0/24''" and pre = "[''junk/24'', ''8.8.8.8'']"
         and post = "[''10.0.0.0/8'']"] m
    by blast
  then show ?thesis using h m n by simp
qed

section \<open>Properties of the loop\<close>

lemma process_ip_skip:
  assumes "isWhitelisted (sanitizeIP raw) (Whitelist cfg)"
  shows "process_ip cfg runArgs r raw = Inr (r\<lparr>logged := logged r @ [LogSkip (sanitizeIP raw)]\<rparr>)"
proof -
  have "sanitizeIP raw \<noteq> []"
    using assms ParseIP_Nil by (auto simp: isWhitelisted_def)
  then show ?thesis using assms by (simp add: process_ip_def Let_def)
qed

text \<open>
  C3. When the canonical form of an address matches some whitelist entry, processing the
  address leaves every offense count as it was, sends no directive to the router, and
  logs the skip.
\<close>

theorem whitelisted_address_untouched:
  assumes "sanitizeIP raw = ip" and "ParseIP ip \<noteq> None"
    and "list_ex (entry_matches ip) (Whitelist cfg)"
  shows "\<exists>r'. process_ip cfg runArgs r raw = Inr r'
            \<and> offenses r' = offenses r \<and> sent r' = sent r \<and> client r' = client r
            \<and> logged r' = logged r @ [LogSkip ip]"
proof -
  have "isWhitelisted (sanitizeIP raw) (Whitelist cfg)"
    using assms by (simp add: isWhitelisted_iff)
  then show ?thesis using process_ip_skip[of raw cfg runArgs r] assms(1) by simp
qed

theorem whitelisted_address_untouched_witness:
  "sanitizeIP ''192.168.1.50'' = ''192.168.1.50'' \<and> ParseIP ''192.168.1.50'' \<noteq> None
   \<and> list_ex (entry_matches ''192.168.1.50'') (Whitelist default_cfg)
   \<and> (\<exists>r'. process_ip default_cfg failing_applier (fresh_run (Some [(''192.168.1.50'', 2)])) ''192.168.1.50'' = Inr r'
            \<and> offenses r' = Some [(''192.168.1.50'', 2)] \<and> sent r' = []
            \<and> logged r' = [LogSkip ''192.168.1.50''])"
proof -
  have h1: "sanitizeIP ''192.168.1.50'' = ''192.168.1.50''" by code_simp
  have h2: "ParseIP ''192.168.1.50'' \<noteq> None" by code_simp
  have h3: "list_ex (entry_matches ''192.168.1.50'') (Whitelist default_cfg)" by code_simp
  show ?thesis
    using h1 h2 h3
      whitelisted_address_untouched [OF h1 h2 h3, of failing_applier "fresh_run (Some [(''192.168.1.50'', 2)])"]
    by (simp add: fresh_run_def)
qed









section \<open>Properties of normalisation\<close>

lemma nat_lt_16_cases: "k < 16 \<Longrightarrow> k \<in> {0,1,2,3,4,5,6,7,8,9,10,11,12,13,14,15::nat}"
  by simp arith

lemma digits_hex: "k < 16 \<Longrightarrow> hexVal (digits ! k) = Some k"
  by (drule nat_lt_16_cases) (auto simp: digits_def hexVal_def less_eq_char_def)

lemma digits_ipchars: "k < 16 \<Longrightarrow> digits ! k \<in> ipchars"
  by (drule nat_lt_16_cases) (auto simp: digits_def ipchars_def)

lemma hexVal_colon: "hexVal (CHR '':'') = None" "hexVal (CHR ''.'') = None"
  by (simp_all add: hexVal_def less_eq_char_def)

lemma isDigit_dot: "\<not> isDigit (CHR ''.'')"
  by (simp add: isDigit_def less_eq_char_def)

lemma appendDecimal_cases:
  assumes "x < 256"
  shows "(x < 10 \<and> appendDecimal x = [digits ! x])
       \<or> (10 \<le> x \<and> x < 100 \<and> appendDecimal x = [digits ! (x div 10), digits ! (x mod 10)])
       \<or> (100 \<le> x \<and> appendDecimal x = [digits ! (x div 100), digits ! (x div 10 mod 10), digits ! (x mod 10)])"
  using assms by (auto simp: appendDecimal_def)

lemma parseIPv4Fields_digit:
  assumes "k < 10" and "\<not> (digLen = 1 \<and> val = 0)" and "val * 10 + k \<le> 255"
  shows "parseIPv4Fields (digits ! k # cs) val digLen pd fs
           = parseIPv4Fields cs (val * 10 + k) (digLen + 1) False fs"
  using assms digits_dec[of k] by auto

lemma parseIPv4Fields_decimal:
  assumes "x < 256"
  shows "parseIPv4Fields (appendDecimal x @ rest) 0 0 pd fs
           = parseIPv4Fields rest x (length (appendDecimal x)) False fs"
proof -
  consider (one) "x < 10" "appendDecimal x = [digits ! x]"
    | (two) "10 \<le> x" "x < 100" "appendDecimal x = [digits ! (x div 10), digits ! (x mod 10)]"
    | (three) "100 \<le> x"
        "appendDecimal x = [digits ! (x div 100), digits ! (x div 10 mod 10), digits ! (x mod 10)]"
    using appendDecimal_cases[OF assms] by blast
  then show ?thesis
  proof cases
    case one
    then show ?thesis by (simp add: parseIPv4Fields_digit del: parseIPv4Fields.simps)
  next
    case two
    have d: "x div 10 < 10" "x mod 10 < 10" "0 < x div 10" using two by auto
    have e: "x div 10 * 10 + x mod 10 = x" by simp
    show ?thesis using two d
      by (simp add: parseIPv4Fields_digit e del: parseIPv4Fields.simps)
  next
    case three
    have d: "x div 100 < 10" "x div 10 mod 10 < 10" "x mod 10 < 10" "0 < x div 100"
      using three assms by auto
    have "x div 100 = x div 10 div 10" by (simp add: div_mult2_eq[symmetric])
    then have e1: "x div 100 * 10 + x div 10 mod 10 = x div 10" by simp
    have e2: "x div 10 * 10 + x mod 10 = x" by simp
    have b: "x div 10 \<le> 255" using assms by auto
    show ?thesis using three d assms
      by (simp add: parseIPv4Fields_digit e1 e2 b del: parseIPv4Fields.simps)
  qed
qed

lemma appendDecimal_nonempty: "appendDecimal x \<noteq> []"
  by (simp add: appendDecimal_def)

lemma length_digits: "length digits = 16"
  by (simp add: digits_def)

lemma digits_hexset: "k < 16 \<Longrightarrow> digits ! k \<in> set digits"
  by (rule nth_mem) (simp add: length_digits)

lemma appendDecimal_chars: "x < 256 \<Longrightarrow> set (appendDecimal x) \<subseteq> set digits"
  using appendDecimal_cases[of x] by (auto intro!: digits_hexset)

lemma parseIPv4Fields_dot:
  "r \<noteq> [] \<Longrightarrow> length fs \<noteq> 3 \<Longrightarrow>
   parseIPv4Fields (CHR ''.'' # r) v dl False fs = parseIPv4Fields r 0 0 True (fs @ [of_nat v])"
  by (simp add: isDigit_dot)

lemma parseIPv4Fields_string4:
  "parseIPv4Fields (string4 [a, b, c, d]) 0 0 True [] = Some [a, b, c, d]"
proof -
  have lt: "unat a < 256" "unat b < 256" "unat c < 256" "unat d < 256"
    using unsigned_less[of a, where 'a = nat] unsigned_less[of b, where 'a = nat]
      unsigned_less[of c, where 'a = nat] unsigned_less[of d, where 'a = nat] by simp_all
  have "parseIPv4Fields (appendDecimal (unat d) @ []) 0 0 True [a, b, c] = Some [a, b, c, d]"
    by (subst parseIPv4Fields_decimal[OF lt(4)]) simp
  then have s3: "parseIPv4Fields (appendDecimal (unat d)) 0 0 True [a, b, c] = Some [a, b, c, d]"
    by simp
  have s2: "parseIPv4Fields (appendDecimal (unat c) @ CHR ''.'' # appendDecimal (unat d)) 0 0 True [a, b]
              = Some [a, b, c, d]"
    by (subst parseIPv4Fields_decimal[OF lt(3)])
       (simp add: parseIPv4Fields_dot appendDecimal_nonempty s3 del: parseIPv4Fields.simps)
  have s1: "parseIPv4Fields (appendDecimal (unat b) @ CHR ''.'' # appendDecimal (unat c)
                @ CHR ''.'' # appendDecimal (unat d)) 0 0 True [a] = Some [a, b, c, d]"
    by (subst parseIPv4Fields_decimal[OF lt(2)])
       (simp add: parseIPv4Fields_dot appendDecimal_nonempty s2 del: parseIPv4Fields.simps)
  have s0: "parseIPv4Fields (appendDecimal (unat a) @ CHR ''.'' # appendDecimal (unat b)
                @ CHR ''.'' # appendDecimal (unat c) @ CHR ''.'' # appendDecimal (unat d)) 0 0 True []
              = Some [a, b, c, d]"
    by (subst parseIPv4Fields_decimal[OF lt(1)])
       (simp add: parseIPv4Fields_dot appendDecimal_nonempty s1 del: parseIPv4Fields.simps)
  then show ?thesis by (simp add: string4_def)
qed

lemma ParseAddr_scan_skip:
  assumes "CHR ''.'' \<notin> set ds" "CHR '':'' \<notin> set ds" "CHR ''%'' \<notin> set ds"
  shows "ParseAddr_scan inp (ds @ r) = ParseAddr_scan inp r"
  using assms by (induction ds) auto

lemma digits_no_sep: "CHR ''.'' \<notin> set digits" "CHR '':'' \<notin> set digits" "CHR ''%'' \<notin> set digits"
  "CHR '','' \<notin> set digits" "CHR 0x22 \<notin> set digits"
  by (simp_all add: digits_def)

lemma ParseAddr_dot_first:
  assumes "s = ds @ CHR ''.'' # r"
    and "CHR ''.'' \<notin> set ds" "CHR '':'' \<notin> set ds" "CHR ''%'' \<notin> set ds"
  shows "ParseAddr s = parseIPv4 s"
proof -
  have "ParseAddr_scan inp (ds @ CHR ''.'' # r) = parseIPv4 inp" for inp
    by (simp add: ParseAddr_scan_skip[OF assms(2-4)])
  then show ?thesis unfolding ParseAddr_def assms(1) .
qed

lemma ParseAddr_colon_first:
  assumes "s = ds @ CHR '':'' # r"
    and "CHR ''.'' \<notin> set ds" "CHR '':'' \<notin> set ds" "CHR ''%'' \<notin> set ds"
  shows "ParseAddr s = parseIPv6 s"
proof -
  have "ParseAddr_scan inp (ds @ CHR '':'' # r) = parseIPv6 inp" for inp
    by (simp add: ParseAddr_scan_skip[OF assms(2-4)])
  then show ?thesis unfolding ParseAddr_def assms(1) .
qed

lemma ParseAddr_string4:
  "ParseAddr (string4 [a, b, c, d]) = Some (Addr4 [a, b, c, d])"
proof -
  have lt: "unat a < 256" using unsigned_less[of a, where 'a = nat] by simp
  have ns: "CHR ''.'' \<notin> set (appendDecimal (unat a))" "CHR '':'' \<notin> set (appendDecimal (unat a))"
      "CHR ''%'' \<notin> set (appendDecimal (unat a))"
    using appendDecimal_chars[OF lt] digits_no_sep by auto
  obtain r where r: "string4 [a, b, c, d] = appendDecimal (unat a) @ CHR ''.'' # r"
    by (simp add: string4_def)
  show ?thesis
    using ParseAddr_dot_first[OF r ns] by (simp add: parseIPv4_def parseIPv4Fields_string4)
qed

lemma digits_hexval_int:
  "0 \<le> k \<Longrightarrow> k < 16 \<Longrightarrow> hexVal (digits ! nat k) = Some (nat k)"
  by (rule digits_hex) simp

lemma appendHex_cases:
  assumes "0 \<le> x" "x < 65536"
  shows "(x < 16 \<and> appendHex x = [digits ! nat x])
       \<or> (16 \<le> x \<and> x < 256 \<and> appendHex x = [digits ! nat (x div 16), digits ! nat (x mod 16)])
       \<or> (256 \<le> x \<and> x < 4096 \<and>
            appendHex x = [digits ! nat (x div 256), digits ! nat (x div 16 mod 16), digits ! nat (x mod 16)])
       \<or> (4096 \<le> x \<and>
            appendHex x = [digits ! nat (x div 4096), digits ! nat (x div 256 mod 16),
                           digits ! nat (x div 16 mod 16), digits ! nat (x mod 16)])"
  using assms by (auto simp: appendHex_def)

lemma appendHex_chars:
  assumes "0 \<le> x" "x < 65536"
  shows "set (appendHex x) \<subseteq> set digits"
proof -
  have "digits ! nat (x div 4096) \<in> set digits" "digits ! nat (x div 256 mod 16) \<in> set digits"
       "digits ! nat (x div 16 mod 16) \<in> set digits" "digits ! nat (x mod 16) \<in> set digits"
       "x < 16 \<Longrightarrow> digits ! nat x \<in> set digits"
       "x < 256 \<Longrightarrow> digits ! nat (x div 16) \<in> set digits"
       "x < 4096 \<Longrightarrow> digits ! nat (x div 256) \<in> set digits"
    using assms by (auto intro!: digits_hexset)
  then show ?thesis using appendHex_cases[OF assms] by auto
qed

lemma appendHex_length:
  assumes "0 \<le> x" "x < 65536"
  shows "appendHex x \<noteq> []" "length (appendHex x) \<le> 4"
  using appendHex_cases[OF assms] by auto

lemma hexVal_digits: "c \<in> set digits \<Longrightarrow> hexVal c \<noteq> None"
  using digits_hex by (auto simp: in_set_conv_nth length_digits)

lemma hexAcc_appendHex:
  assumes "0 \<le> x" "x < 65536"
  shows "hexAcc (appendHex x) = x"
proof -
  have d1: "x div 256 = x div 16 div 16" "x div 4096 = x div 256 div 16"
    by (simp_all add: zdiv_zmult2_eq[symmetric])
  have hv: "\<And>k. 0 \<le> k \<Longrightarrow> k < 16 \<Longrightarrow> int (the (hexVal (digits ! nat k))) = k"
    by (simp add: digits_hexval_int)
  consider (one) "x < 16" "appendHex x = [digits ! nat x]"
    | (two) "16 \<le> x" "x < 256" "appendHex x = [digits ! nat (x div 16), digits ! nat (x mod 16)]"
    | (three) "256 \<le> x" "x < 4096"
        "appendHex x = [digits ! nat (x div 256), digits ! nat (x div 16 mod 16), digits ! nat (x mod 16)]"
    | (four) "4096 \<le> x"
        "appendHex x = [digits ! nat (x div 4096), digits ! nat (x div 256 mod 16),
                        digits ! nat (x div 16 mod 16), digits ! nat (x mod 16)]"
    using appendHex_cases[OF assms] by blast
  then show ?thesis
  proof cases
    case one
    then show ?thesis using assms by (simp add: hexAcc_def hv)
  next
    case two
    have "x div 16 < 16" "0 \<le> x div 16" using two by auto
    then show ?thesis using two by (simp add: hexAcc_def hv)
  next
    case three
    have b: "x div 256 < 16" "0 \<le> x div 256" using three by auto
    have "x div 256 * 16 + x div 16 mod 16 = x div 16" by (simp add: d1)
    then show ?thesis using three b by (simp add: hexAcc_def hv)
  next
    case four
    have b: "x div 4096 < 16" "0 \<le> x div 4096" using four assms by auto
    have "x div 4096 * 16 + x div 256 mod 16 = x div 256" by (simp add: d1)
    moreover have "x div 256 * 16 + x div 16 mod 16 = x div 16" by (simp add: d1)
    ultimately show ?thesis using four b by (simp add: hexAcc_def hv)
  qed
qed

lemma takeWhile_hex:
  assumes "0 \<le> x" "x < 65536" and "rest = [] \<or> hexVal (hd rest) = None"
  shows "takeWhile isHexDigit (appendHex x @ rest) = appendHex x"
    and "dropWhile isHexDigit (appendHex x @ rest) = rest"
proof -
  have all: "\<forall>c\<in>set (appendHex x). isHexDigit c"
    using appendHex_chars[OF assms(1,2)] hexVal_digits by (auto simp: isHexDigit_def)
  show "takeWhile isHexDigit (appendHex x @ rest) = appendHex x"
    using all assms(3) by (cases rest) (simp_all add: takeWhile_append2 isHexDigit_def)
  show "dropWhile isHexDigit (appendHex x @ rest) = rest"
    using all assms(3) by (cases rest) (simp_all add: dropWhile_append2 isHexDigit_def)
qed

lemma parseIPv6_loop_last:
  assumes "0 \<le> x" "x < 65536" "length ip < 16"
  shows "parseIPv6_loop (appendHex x) ip ell = Some ([], ip @ groupBytes x, ell)"
proof -
  have tw: "takeWhile isHexDigit (appendHex x) = appendHex x"
       "dropWhile isHexDigit (appendHex x) = []"
    using takeWhile_hex[OF assms(1,2), of "[]"] by simp_all
  show ?thesis
    using assms(3) appendHex_length[OF assms(1,2)] assms(1,2)
    by (subst parseIPv6_loop.simps) (simp add: tw hexAcc_appendHex groupBytes_def)
qed

lemma parseIPv6_loop_colon:
  assumes "0 \<le> x" "x < 65536" "length ip < 16" "c1 \<noteq> CHR '':''"
  shows "parseIPv6_loop (appendHex x @ CHR '':'' # c1 # s2) ip ell
           = parseIPv6_loop (c1 # s2) (ip @ groupBytes x) ell"
proof -
  have tw: "takeWhile isHexDigit (appendHex x @ CHR '':'' # c1 # s2) = appendHex x"
       "dropWhile isHexDigit (appendHex x @ CHR '':'' # c1 # s2) = CHR '':'' # c1 # s2"
    using takeWhile_hex[OF assms(1,2), of "CHR '':'' # c1 # s2"] by (simp_all add: hexVal_colon)
  show ?thesis
    using assms(3,4) appendHex_length[OF assms(1,2)] assms(1,2)
    by (subst parseIPv6_loop.simps) (simp add: tw hexAcc_appendHex groupBytes_def)
qed

lemma parseIPv6_loop_ellipsis:
  assumes "0 \<le> x" "x < 65536" "length ip < 16"
  shows "parseIPv6_loop (appendHex x @ CHR '':'' # CHR '':'' # s2) ip None
           = (if s2 = [] then Some ([], ip @ groupBytes x, Some (length ip + 2))
              else parseIPv6_loop s2 (ip @ groupBytes x) (Some (length ip + 2)))"
  using assms(3) appendHex_length[OF assms(1,2)] assms(1,2)
  by (subst parseIPv6_loop.simps)
     (simp add: takeWhile_hex[OF assms(1,2)] hexVal_colon hexAcc_appendHex groupBytes_def)

lemma length_groupsBytes: "length (groupsBytes gs) = 2 * length gs"
  by (induction gs) (simp_all add: groupsBytes_def groupBytes_def)

lemma joinColon_Cons2:
  "joinColon (map appendHex (x # y # ys)) = appendHex x @ CHR '':'' # joinColon (map appendHex (y # ys))"
  by simp

lemma joinColon_hd:
  assumes "0 \<le> y" "y < 65536"
  shows "\<exists>c1 s2. joinColon (map appendHex (y # ys)) = c1 # s2 \<and> c1 \<noteq> CHR '':''"
proof -
  obtain c1 r where a: "appendHex y = c1 # r"
    using appendHex_length(1)[OF assms] by (cases "appendHex y") auto
  then have "c1 \<in> set digits" using appendHex_chars[OF assms] by auto
  then have "c1 \<noteq> CHR '':''" using digits_no_sep by auto
  then show ?thesis using a by (cases ys) auto
qed

lemma parseIPv6_loop_groups:
  assumes "gs \<noteq> []" "\<forall>g\<in>set gs. 0 \<le> g \<and> g < 65536" "length ip + 2 * length gs \<le> 16"
  shows "parseIPv6_loop (joinColon (map appendHex gs)) ip ell = Some ([], ip @ groupsBytes gs, ell)"
  using assms
proof (induction gs arbitrary: ip)
  case Nil
  then show ?case by simp
next
  case (Cons x gs)
  have x: "0 \<le> x" "x < 65536" "length ip < 16" using Cons.prems by auto
  show ?case
  proof (cases gs)
    case Nil
    then show ?thesis using parseIPv6_loop_last[OF x] by (simp add: groupsBytes_def)
  next
    case (Cons y ys)
    have y: "0 \<le> y" "y < 65536" using Cons.prems(2) Cons by auto
    obtain c1 s2 where j: "joinColon (map appendHex (y # ys)) = c1 # s2" "c1 \<noteq> CHR '':''"
      using joinColon_hd[OF y] by blast
    have "parseIPv6_loop (joinColon (map appendHex (x # y # ys))) ip ell
            = parseIPv6_loop (c1 # s2) (ip @ groupBytes x) ell"
      unfolding joinColon_Cons2 j(1) using parseIPv6_loop_colon[OF x j(2)] by simp
    also have "\<dots> = Some ([], (ip @ groupBytes x) @ groupsBytes gs, ell)"
      using Cons.IH[of "ip @ groupBytes x"] Cons.prems Cons j(1)
      by (simp add: groupBytes_def)
    finally show ?thesis using Cons by (simp add: groupsBytes_def)
  qed
qed

lemma parseIPv6_loop_groups_ellipsis:
  assumes "gs \<noteq> []" "\<forall>g\<in>set gs. 0 \<le> g \<and> g < 65536" "length ip + 2 * length gs \<le> 16"
  shows "parseIPv6_loop (joinColon (map appendHex gs) @ ''::'' @ t) ip None
           = (if t = [] then Some ([], ip @ groupsBytes gs, Some (length ip + 2 * length gs))
              else parseIPv6_loop t (ip @ groupsBytes gs) (Some (length ip + 2 * length gs)))"
  using assms
proof (induction gs arbitrary: ip)
  case Nil
  then show ?case by simp
next
  case (Cons x gs)
  have x: "0 \<le> x" "x < 65536" "length ip < 16" using Cons.prems by auto
  show ?case
  proof (cases gs)
    case Nil
    then show ?thesis using parseIPv6_loop_ellipsis[OF x, of t]
      by (simp add: groupsBytes_def)
  next
    case (Cons y ys)
    have y: "0 \<le> y" "y < 65536" using Cons.prems(2) Cons by auto
    obtain c1 s2 where j: "joinColon (map appendHex (y # ys)) = c1 # s2" "c1 \<noteq> CHR '':''"
      using joinColon_hd[OF y] by blast
    have "parseIPv6_loop (joinColon (map appendHex (x # y # ys)) @ ''::'' @ t) ip None
            = parseIPv6_loop ((c1 # s2) @ ''::'' @ t) (ip @ groupBytes x) None"
      unfolding joinColon_Cons2 j(1) using parseIPv6_loop_colon[OF x j(2), of "s2 @ ''::'' @ t" None]
      by simp
    also have "\<dots> = (if t = [] then Some ([], (ip @ groupBytes x) @ groupsBytes gs,
                                  Some (length (ip @ groupBytes x) + 2 * length gs))
                     else parseIPv6_loop t ((ip @ groupBytes x) @ groupsBytes gs)
                            (Some (length (ip @ groupBytes x) + 2 * length gs)))"
      using Cons.IH[of "ip @ groupBytes x"] Cons.prems Cons j(1)
      by (simp add: groupBytes_def)
    finally show ?thesis using Cons by (simp add: groupsBytes_def groupBytes_def)
  qed
qed

lemma zerosInv_step:
  assumes "i < 8" "zerosInv g acc"
  shows "zerosInv g ((\<lambda>(zeroStart, zeroEnd).
             if zeroRun g i \<ge> 2 \<and> zeroRun g i > zeroEnd - zeroStart
             then (i, i + zeroRun g i) else (zeroStart, zeroEnd)) acc)"
  using assms by (cases acc) (auto simp: zerosInv_def)

lemma zerosInv_fold:
  assumes "\<forall>i\<in>set is. i < 8" "zerosInv g acc"
  shows "zerosInv g (fold (\<lambda>i (zeroStart, zeroEnd).
             if zeroRun g i \<ge> 2 \<and> zeroRun g i > zeroEnd - zeroStart
             then (i, i + zeroRun g i) else (zeroStart, zeroEnd)) is acc)"
  using assms
proof (induction "is" arbitrary: acc)
  case Nil
  then show ?case by simp
next
  case (Cons i "is")
  have "zerosInv g ((\<lambda>(zeroStart, zeroEnd).
             if zeroRun g i \<ge> 2 \<and> zeroRun g i > zeroEnd - zeroStart
             then (i, i + zeroRun g i) else (zeroStart, zeroEnd)) acc)"
    using Cons.prems by (intro zerosInv_step) auto
  then show ?case using Cons.IH Cons.prems(1) by simp
qed

lemma longestZeros_inv: "zerosInv g (longestZeros g)"
  unfolding longestZeros_def
  by (rule zerosInv_fold) (auto simp: zerosInv_def)

lemma zeroRun_split:
  "drop i g = replicate (zeroRun g i) 0 @ drop (i + zeroRun g i) g"
proof -
  let ?xs = "drop i g"
  have a: "takeWhile (\<lambda>x. x = 0) ?xs = replicate (zeroRun g i) 0"
    unfolding zeroRun_def
    by (rule replicate_length_same[symmetric]) (auto dest: set_takeWhileD)
  have b: "dropWhile (\<lambda>x. x = 0) ?xs = drop (i + zeroRun g i) g"
    by (simp add: dropWhile_eq_drop zeroRun_def add.commute)
  show ?thesis using takeWhile_dropWhile_id[of "\<lambda>x. x = 0" ?xs] a b by simp
qed

lemma zeroRun_le: "i + zeroRun g i \<le> length g \<or> zeroRun g i = 0"
  using length_takeWhile_le[of "\<lambda>x. x = 0" "drop i g"]
  by (cases "i \<le> length g") (auto simp: zeroRun_def)

lemma groups_split:
  assumes "2 \<le> zeroRun g zs"
  shows "g = take zs g @ replicate (zeroRun g zs) 0 @ drop (zs + zeroRun g zs) g"
    and "zs + zeroRun g zs \<le> length g"
  using zeroRun_split[of zs g] append_take_drop_id[of zs g] zeroRun_le[of zs g] assms
  by (metis, linarith)

lemma string6_groups: "string6 ip = string6g (map (v6u16 ip) [0..<8])"
  by (simp add: string6_def string6g_def Let_def)

lemma inRange_simps [simp]:
  "inRange []" "inRange (x # xs) = (0 \<le> x \<and> x < 65536 \<and> inRange xs)"
  by (auto simp: inRange_def)

lemma inRange_take_drop: "inRange g \<Longrightarrow> inRange (take n g) \<and> inRange (drop n g)"
  by (auto simp: inRange_def dest: in_set_takeD in_set_dropD)

lemma joinColon_chars:
  "inRange gs \<Longrightarrow> set (joinColon (map appendHex gs)) \<subseteq> insert (CHR '':'') (set digits)"
proof (induction gs rule: induct_list012)
  case 1
  then show ?case by simp
next
  case (2 x)
  then show ?case using appendHex_chars[of x] by auto
next
  case (3 x y zs)
  then show ?case using appendHex_chars[of x] by auto
qed

lemma joinColon_Nil_iff: "inRange gs \<Longrightarrow> joinColon (map appendHex gs) = [] \<longleftrightarrow> gs = []"
proof (induction gs rule: induct_list012)
  case (2 x)
  then show ?case using appendHex_length(1)[of x] by simp
qed simp_all

lemma joinColon_first:
  assumes "inRange gs" "gs \<noteq> []"
  shows "\<exists>c r. joinColon (map appendHex gs) = c # r \<and> c \<in> set digits"
proof -
  obtain x xs where g: "gs = x # xs" using assms(2) by (cases gs) auto
  then have x: "0 \<le> x" "x < 65536" using assms(1) by auto
  obtain c r where a: "appendHex x = c # r"
    using appendHex_length(1)[OF x] by (cases "appendHex x") auto
  then have "c \<in> set digits" using appendHex_chars[OF x] by auto
  then show ?thesis using a g by (cases xs) auto
qed

lemma groupsBytes_Nil [simp]: "groupsBytes [] = []"
  by (simp add: groupsBytes_def)

lemma groupsBytes_append: "groupsBytes (a @ b) = groupsBytes a @ groupsBytes b"
  by (simp add: groupsBytes_def)

lemma groupsBytes_zeros: "groupsBytes (replicate n 0) = replicate (2 * n) 0"
  by (induction n) (simp_all add: groupsBytes_def groupBytes_def)

lemma parseIPv6_no_zone:
  assumes "CHR ''%'' \<notin> set s"
  shows "parseIPv6 s =
     (if take 2 s = ''::'' then
        (if drop 2 s = [] then Some (Addr6 (replicate 16 0) [])
         else parseIPv6_finish (drop 2 s) [] (Some 0) [])
      else parseIPv6_finish s [] None [])"
proof -
  have tw: "takeWhile (\<lambda>c. c \<noteq> CHR ''%'') s = s"
    using assms by (auto simp: takeWhile_eq_all_conv)
  show ?thesis unfolding parseIPv6_def Let_def tw using assms by simp
qed

lemma parseIPv6_string6g:
  assumes "length g = 8" "inRange g"
  shows "parseIPv6 (string6g g) = Some (Addr6 (groupsBytes g) [])"
proof -
  obtain zs ze where z: "longestZeros g = (zs, ze)" by (cases "longestZeros g")
  have inv: "(zs = 255 \<and> ze = 255) \<or> (zs < 8 \<and> ze = zs + zeroRun g zs \<and> 2 \<le> zeroRun g zs)"
    using longestZeros_inv[of g] z by (simp add: zerosInv_def)
  have rng: "\<forall>x\<in>set g. 0 \<le> x \<and> x < 65536" using assms(2) by (simp add: inRange_def)
  show ?thesis
  proof (cases "zs < 8")
    case False
    then have s: "string6g g = joinColon (map appendHex g)" using z by (simp add: string6g_def)
    have ne: "g \<noteq> []" using assms(1) by auto
    obtain c r where c: "joinColon (map appendHex g) = c # r" "c \<in> set digits"
      using joinColon_first[OF assms(2) ne] by blast
    have nz: "CHR ''%'' \<notin> set (joinColon (map appendHex g))"
      using joinColon_chars[OF assms(2)] digits_no_sep by auto
    have t2: "take 2 (joinColon (map appendHex g)) \<noteq> ''::''"
      using c digits_no_sep by auto
    have "parseIPv6_loop (joinColon (map appendHex g)) [] None = Some ([], [] @ groupsBytes g, None)"
      by (rule parseIPv6_loop_groups[OF ne rng]) (simp add: assms(1))
    then show ?thesis
      using nz t2 assms(1) by (simp add: s parseIPv6_no_zone parseIPv6_finish_def length_groupsBytes)
  next
    case True
    then have ze: "ze = zs + zeroRun g zs" "2 \<le> zeroRun g zs" using inv by auto
    let ?pre = "take zs g" and ?post = "drop ze g"
    have split: "g = ?pre @ replicate (zeroRun g zs) 0 @ ?post" "ze \<le> 8"
      using groups_split[OF ze(2)] ze(1) assms(1) by auto
    have s: "string6g g = joinColon (map appendHex ?pre) @ ''::'' @ joinColon (map appendHex ?post)"
      using z True by (simp add: string6g_def)
    have rp: "inRange ?pre" "inRange ?post" using inRange_take_drop[OF assms(2)] by auto
    have rng_pre: "\<forall>x\<in>set ?pre. 0 \<le> x \<and> x < 65536" and rng_post: "\<forall>x\<in>set ?post. 0 \<le> x \<and> x < 65536"
      using rp by (simp_all add: inRange_def)
    have lens: "length ?pre = zs" "length ?post = 8 - ze" using True assms(1) by auto
    have nz: "CHR ''%'' \<notin> set (string6g g)"
      using joinColon_chars[OF rp(1)] joinColon_chars[OF rp(2)] digits_no_sep unfolding s by auto
    have bytes: "groupsBytes g = groupsBytes ?pre @ replicate (2 * (ze - zs)) 0 @ groupsBytes ?post"
      using arg_cong[OF split(1), of groupsBytes] ze(1)
      by (simp add: groupsBytes_append groupsBytes_zeros)
    show ?thesis
    proof (cases "zs = 0")
      case True
      then have s0: "string6g g = ''::'' @ joinColon (map appendHex ?post)" using s by simp
      show ?thesis
      proof (cases "?post = []")
        case True
        then have "ze = 8" using lens(2) split(2) by auto
        then have "groupsBytes g = replicate 16 0" using bytes \<open>zs = 0\<close> True
          by (simp add: groupsBytes_def)
        moreover have "string6g g = ''::''" using s0 True by simp
        ultimately show ?thesis by (simp add: parseIPv6_no_zone)
      next
        case False
        then have jn: "joinColon (map appendHex ?post) \<noteq> []"
          using joinColon_Nil_iff[OF rp(2)] by simp
        have "parseIPv6_loop (joinColon (map appendHex ?post)) [] (Some 0)
                = Some ([], [] @ groupsBytes ?post, Some 0)"
          by (rule parseIPv6_loop_groups[OF False rng_post]) (simp add: assms(1))
        moreover have "length (groupsBytes ?post) < 16"
          using lens(2) ze \<open>zs = 0\<close> by (simp add: length_groupsBytes)
        moreover have "16 - length (groupsBytes ?post) = 2 * (ze - zs)"
          using lens(2) split(2) \<open>zs = 0\<close> by (simp add: length_groupsBytes)
        ultimately show ?thesis
          using nz jn bytes \<open>zs = 0\<close>
          by (simp add: s0 parseIPv6_no_zone parseIPv6_finish_def)
      qed
    next
      case False
      then have pne: "?pre \<noteq> []" using True assms(1) by auto
      obtain c r where c: "joinColon (map appendHex ?pre) = c # r" "c \<in> set digits"
        using joinColon_first[OF rp(1) pne] by blast
      have t2: "take 2 (string6g g) \<noteq> ''::''"
        using c digits_no_sep unfolding s by auto
      have l1: "0 + 2 * length ?pre \<le> 16" using lens(1) True by simp
      have loop1: "parseIPv6_loop (string6g g) [] None
          = (if joinColon (map appendHex ?post) = []
             then Some ([], [] @ groupsBytes ?pre, Some (length ([]::byte list) + 2 * length ?pre))
             else parseIPv6_loop (joinColon (map appendHex ?post)) ([] @ groupsBytes ?pre)
                    (Some (length ([]::byte list) + 2 * length ?pre)))"
        unfolding s using parseIPv6_loop_groups_ellipsis[OF pne rng_pre, of "[]"] l1 by simp
      show ?thesis
      proof (cases "?post = []")
        case True
        then have "ze = 8" using lens(2) split(2) by auto
        then have b: "groupsBytes g = groupsBytes ?pre @ replicate (2 * (8 - zs)) 0"
          using bytes True by (simp add: groupsBytes_def)
        have "parseIPv6_loop (string6g g) [] None = Some ([], groupsBytes ?pre, Some (2 * zs))"
          using loop1 True lens(1) by simp
        moreover have "length (groupsBytes ?pre) = 2 * zs" using lens(1) by (simp add: length_groupsBytes)
        ultimately show ?thesis
          using nz t2 b \<open>zs < 8\<close>
          by (simp add: parseIPv6_no_zone parseIPv6_finish_def)
      next
        case False
        then have jn: "joinColon (map appendHex ?post) \<noteq> []"
          using joinColon_Nil_iff[OF rp(2)] by simp
        have l2: "length (groupsBytes ?pre) + 2 * length ?post \<le> 16"
          using lens ze split(2) by (simp add: length_groupsBytes)
        have "parseIPv6_loop (string6g g) [] None
                = parseIPv6_loop (joinColon (map appendHex ?post)) (groupsBytes ?pre) (Some (2 * zs))"
          using loop1 jn lens(1) by simp
        also have "\<dots> = Some ([], groupsBytes ?pre @ groupsBytes ?post, Some (2 * zs))"
          by (rule parseIPv6_loop_groups[OF False rng_post l2])
        finally have lp: "parseIPv6_loop (string6g g) [] None
                = Some ([], groupsBytes ?pre @ groupsBytes ?post, Some (2 * zs))" .
        have len: "length (groupsBytes ?pre) = 2 * zs" "length (groupsBytes ?post) = 2 * (8 - ze)"
          using lens by (simp_all add: length_groupsBytes)
        have "16 - (2 * zs + 2 * (8 - ze)) = 2 * (ze - zs)" "2 * zs + 2 * (8 - ze) < 16"
          using split(2) ze by auto
        then show ?thesis
          using nz t2 bytes lp len
          by (simp add: parseIPv6_no_zone parseIPv6_finish_def)
      qed
    qed
  qed
qed

lemma groupBytes_v6u16: "groupBytes (v6u16 p i) = [p ! (2 * i), p ! (2 * i + 1)]"
proof -
  let ?a = "p ! (2 * i)" and ?b = "p ! (2 * i + 1)"
  have b: "0 \<le> uint ?b" "uint ?b < 256" using uint_lt2p[of ?b] by simp_all
  then have "(uint ?a * 256 + uint ?b) div 256 = uint ?a" by simp
  moreover have "(256 :: byte) = 2 ^ LENGTH(8)" by simp
  then have z: "(256 :: byte) = 0" by (simp only: word_pow_0)
  have "?a * 256 = 0" unfolding z by simp
  then have "(word_of_int (uint ?a * 256 + uint ?b) :: byte) = ?b" by simp
  ultimately show ?thesis by (simp add: groupBytes_def v6u16_def)
qed

lemma v6u16_range: "0 \<le> v6u16 p i \<and> v6u16 p i < 65536"
proof -
  have "0 \<le> uint (p ! (2 * i))" "uint (p ! (2 * i)) < 256"
       "0 \<le> uint (p ! (2 * i + 1))" "uint (p ! (2 * i + 1)) < 256"
    using uint_lt2p[of "p ! (2 * i)"] uint_lt2p[of "p ! (2 * i + 1)"] by simp_all
  then show ?thesis by (simp add: v6u16_def)
qed

lemma upt8: "[0..<8] = [0, 1, 2, 3, 4, 5, 6, 7]"
  by (simp add: upt_rec)

lemma groupsBytes_v6u16:
  assumes "length p = 16"
  shows "groupsBytes (map (v6u16 p) [0..<8]) = p"
proof (rule nth_equalityI)
  show "length (groupsBytes (map (v6u16 p) [0..<8])) = length p"
    using assms by (simp add: length_groupsBytes)
next
  fix i assume "i < length (groupsBytes (map (v6u16 p) [0..<8]))"
  then have "i < 16" by (simp add: length_groupsBytes)
  then have "i \<in> {0,1,2,3,4,5,6,7,8,9,10,11,12,13,14,15}" by (rule nat_lt_16_cases)
  then show "groupsBytes (map (v6u16 p) [0..<8]) ! i = p ! i"
    by (auto simp: groupsBytes_def upt8 groupBytes_v6u16)
qed

lemma inRange_v6u16: "inRange (map (v6u16 p) [0..<8])"
  using v6u16_range by (auto simp: inRange_def)

lemma parseIPv6_string6:
  assumes "length p = 16"
  shows "parseIPv6 (string6 p) = Some (Addr6 p [])"
  using parseIPv6_string6g[of "map (v6u16 p) [0..<8]"] groupsBytes_v6u16[OF assms] inRange_v6u16[of p]
  by (simp add: string6_groups)

lemma parseIPv4Fields_length:
  "parseIPv4Fields s v dl pd fs = Some r \<Longrightarrow> length fs \<le> 3 \<Longrightarrow> length r = 4"
  by (induction s v dl pd fs rule: parseIPv4Fields.induct) (auto split: if_splits)

lemma parseIPv6_loop_done: "\<not> length ip < 16 \<Longrightarrow> parseIPv6_loop s ip ell = Some (s, ip, ell)"
  by (subst parseIPv6_loop.simps) simp

lemma parseIPv6_loop_step:
  assumes "length ip < 16" "parseIPv6_loop s ip ell = Some res"
  shows "(\<exists>f. res = ([], ip @ f, ell) \<and> length f = 4 \<and> length ip + 4 \<le> 16)
       \<or> (\<exists>b. length b = 2 \<and>
              (res = ([], ip @ b, ell) \<or> res = ([], ip @ b, Some (length ip + 2))
               \<or> (\<exists>s2 ell2. parseIPv6_loop s2 (ip @ b) ell2 = Some res)))"
proof -
  let ?b = "[of_int (hexAcc (takeWhile isHexDigit s) div 256), of_int (hexAcc (takeWhile isHexDigit s)) :: byte]"
  have lb: "length ?b = 2" by simp
  show ?thesis
  proof (cases "dropWhile isHexDigit s \<noteq> [] \<and> hd (dropWhile isHexDigit s) = CHR ''.''")
    case True
    then obtain f where "res = ([], ip @ f, ell)" "parseIPv4Fields s 0 0 True [] = Some f"
        "length ip + 4 \<le> 16"
      using assms by (subst (asm) parseIPv6_loop.simps) (auto split: if_splits option.splits)
    then show ?thesis using parseIPv4Fields_length[of s 0 0 True "[]" f] by auto
  next
    case False
    then have "res = ([], ip @ ?b, ell) \<or> res = ([], ip @ ?b, Some (length ip + 2))
               \<or> (\<exists>s2 ell2. parseIPv6_loop s2 (ip @ ?b) ell2 = Some res)"
      using assms
      by (subst (asm) parseIPv6_loop.simps) (auto split: if_splits list.splits simp del: append.simps)
    then show ?thesis using lb by blast
  qed
qed

lemma parseIPv6_loop_length:
  "parseIPv6_loop s ip ell = Some (s', ip', ell') \<Longrightarrow> even (length ip) \<Longrightarrow> length ip \<le> 16
     \<Longrightarrow> even (length ip') \<and> length ip' \<le> 16"
proof (induction "16 - length ip" arbitrary: s ip ell rule: less_induct)
  case less
  show ?case
  proof (cases "length ip < 16")
    case False
    then show ?thesis using less.prems parseIPv6_loop_done[OF False, of s ell] by simp
  next
    case True
    from parseIPv6_loop_step[OF True less.prems(1)]
    consider (v4) f where "ip' = ip @ f" "length f = 4" "length ip + 4 \<le> 16"
      | (b) b where "length b = 2" "ip' = ip @ b"
      | (r) b s2 ell2 where "length b = 2" "parseIPv6_loop s2 (ip @ b) ell2 = Some (s', ip', ell')"
      by auto
    then show ?thesis
    proof cases
      case v4
      then show ?thesis using less.prems(2) by simp
    next
      case b
      then show ?thesis using less.prems(2) True by (auto elim!: evenE)
    next
      case r
      have e: "even (length (ip @ b))" "length (ip @ b) \<le> 16"
        using r(1) less.prems(2) True by (auto elim!: evenE)
      have "16 - length (ip @ b) < 16 - length ip" using r(1) True by simp
      from less.hyps[OF this r(2) e] show ?thesis .
    qed
  qed
qed

lemma parseIPv6_length: "parseIPv6 s = Some (Addr6 p z) \<Longrightarrow> length p = 16"
proof -
  have fin: "parseIPv6_finish t [] e z' = Some (Addr6 p z) \<Longrightarrow> length p = 16" for t e z'
  proof -
    assume a: "parseIPv6_finish t [] e z' = Some (Addr6 p z)"
    then obtain s' ip' ell' where l: "parseIPv6_loop t [] e = Some (s', ip', ell')"
      by (auto simp: parseIPv6_finish_def split: option.splits)
    then have "even (length ip') \<and> length ip' \<le> 16"
      using parseIPv6_loop_length[OF l] by simp
    then show ?thesis using a l
      by (auto simp: parseIPv6_finish_def split: option.splits if_splits)
  qed
  assume "parseIPv6 s = Some (Addr6 p z)"
  then show ?thesis
    using fin by (auto simp: parseIPv6_def Let_def split: if_splits)
qed

lemma ParseIP_length: "ParseIP s = Some p \<Longrightarrow> length p = 16"
proof -
  assume a: "ParseIP s = Some p"
  then obtain ad where ad: "ParseAddr s = Some ad" "p = As16 ad"
    by (auto simp: ParseIP_def split: option.splits if_splits)
  have scan: "ParseAddr_scan inp t = Some ad \<Longrightarrow> parseIPv4 inp = Some ad \<or> parseIPv6 inp = Some ad" for inp t
    by (induction t) (auto split: if_splits)
  from ad(1) consider "parseIPv4 s = Some ad" | "parseIPv6 s = Some ad"
    using scan[of s s] by (auto simp: ParseAddr_def)
  then show ?thesis
  proof cases
    case 1
    then obtain f where "ad = Addr4 f" "parseIPv4Fields s 0 0 True [] = Some f"
      by (auto simp: parseIPv4_def)
    then show ?thesis using ad(2) parseIPv4Fields_length[of s 0 0 True "[]" f]
      by (simp add: v4InV6Prefix_def)
  next
    case 2
    show ?thesis
    proof (cases ad)
      case (Addr4 f)
      then show ?thesis using 2 by (auto simp: parseIPv6_def parseIPv6_finish_def Let_def split: if_splits option.splits)
    next
      case (Addr6 q z)
      then show ?thesis using 2 ad(2) parseIPv6_length[of s q z] by simp
    qed
  qed
qed

lemma joinColon_head:
  assumes "0 \<le> x" "x < 65536"
  shows "\<exists>r. joinColon (map appendHex (x # xs)) @ CHR '':'' # t = appendHex x @ CHR '':'' # r"
  by (cases xs) auto

lemma string6g_colon_first:
  assumes "length g = 8" "inRange g"
  shows "\<exists>ds r. string6g g = ds @ CHR '':'' # r \<and> set ds \<subseteq> set digits"
proof -
  obtain zs ze where z: "longestZeros g = (zs, ze)" by (cases "longestZeros g")
  obtain x y ys where g: "g = x # y # ys"
    using assms(1) by (cases g; cases "tl g") auto
  have x: "0 \<le> x" "x < 65536" using assms(2) g by auto
  show ?thesis
  proof (cases "zs < 8")
    case False
    then have "string6g g = appendHex x @ CHR '':'' # joinColon (map appendHex (y # ys))"
      using z g by (simp add: string6g_def)
    then show ?thesis using appendHex_chars[OF x] by blast
  next
    case True
    then have s: "string6g g = joinColon (map appendHex (take zs g)) @ CHR '':'' #
                      (CHR '':'' # joinColon (map appendHex (drop ze g)))"
      using z by (simp add: string6g_def)
    show ?thesis
    proof (cases "take zs g")
      case Nil
      have "string6g g = [] @ CHR '':'' # (CHR '':'' # joinColon (map appendHex (drop ze g)))"
        unfolding s Nil by simp
      then show ?thesis by (metis empty_set empty_subsetI)
    next
      case (Cons a as)
      then have "a = x" using g by (cases zs) auto
      then obtain r where "string6g g = appendHex x @ CHR '':'' # r"
        using s Cons joinColon_head[OF x, of as] by auto
      then show ?thesis using appendHex_chars[OF x] by blast
    qed
  qed
qed

lemma ParseAddr_string6:
  assumes "length p = 16"
  shows "ParseAddr (string6 p) = Some (Addr6 p [])"
proof -
  obtain ds r where d: "string6 p = ds @ CHR '':'' # r" "set ds \<subseteq> set digits"
    using string6g_colon_first[of "map (v6u16 p) [0..<8]"] inRange_v6u16[of p]
    by (auto simp: string6_groups)
  have ns: "CHR ''.'' \<notin> set ds" "CHR '':'' \<notin> set ds" "CHR ''%'' \<notin> set ds"
    using d(2) digits_no_sep by auto
  show ?thesis
    using ParseAddr_colon_first[OF d(1) ns] parseIPv6_string6[OF assms] by simp
qed

lemma length4: "length xs = 4 \<Longrightarrow> xs = [xs ! 0, xs ! 1, xs ! 2, xs ! 3]"
proof (rule nth_equalityI)
  fix i assume "length xs = 4" "i < length xs"
  then have "i \<in> {0, 1, 2, 3}" by auto
  then show "xs ! i = [xs ! 0, xs ! 1, xs ! 2, xs ! 3] ! i" by auto
qed simp

lemma To4_cases:
  assumes "length p = 16"
  shows "To4 p = None \<or> (\<exists>a b c d. p = v4InV6Prefix @ [a, b, c, d] \<and> To4 p = Some [a, b, c, d])"
proof (cases "To4 p")
  case None
  then show ?thesis by simp
next
  case (Some q)
  then have c: "take 10 p = replicate 10 0" "p ! 10 = 0xff" "p ! 11 = 0xff" "q = drop 12 p"
    using assms by (auto simp: To4_def split: if_splits)
  have pre: "take 12 p = v4InV6Prefix"
  proof (rule nth_equalityI)
    show "length (take 12 p) = length v4InV6Prefix" using assms by (simp add: v4InV6Prefix_def)
  next
    fix i assume "i < length (take 12 p)"
    then have i: "i < 12" using assms by simp
    have z: "\<And>j. j < 10 \<Longrightarrow> p ! j = 0"
    proof -
      fix j :: nat assume j: "j < 10"
      have "take 10 p ! j = p ! j" using j by simp
      then show "p ! j = 0" using c(1) j by simp
    qed
    from i have "i \<in> {0,1,2,3,4,5,6,7,8,9,10,11}" by simp arith
    then show "take 12 p ! i = v4InV6Prefix ! i"
      using z c(2,3) by (auto simp: v4InV6Prefix_def)
  qed
  have "length q = 4" using c(4) assms by simp
  then have q: "q = [q ! 0, q ! 1, q ! 2, q ! 3]" by (rule length4)
  have "p = take 12 p @ drop 12 p" by simp
  then have "p = v4InV6Prefix @ [q ! 0, q ! 1, q ! 2, q ! 3]" using pre c(4) q by metis
  then show ?thesis using Some q by metis
qed

lemma ParseIP_IP_String:
  assumes "length p = 16"
  shows "ParseIP (IP_String p) = Some p"
  using To4_cases[OF assms]
proof
  assume n: "To4 p = None"
  then have "IP_String p = string6 p" using assms by (simp add: IP_String_def)
  then show ?thesis using ParseAddr_string6[OF assms] by (simp add: ParseIP_def)
next
  assume "\<exists>a b c d. p = v4InV6Prefix @ [a, b, c, d] \<and> To4 p = Some [a, b, c, d]"
  then obtain a b c d where q: "p = v4InV6Prefix @ [a, b, c, d]" "To4 p = Some [a, b, c, d]" by blast
  then have "IP_String p = string4 [a, b, c, d]" using assms by (simp add: IP_String_def)
  then show ?thesis using ParseAddr_string4[of a b c d] q(1) by (simp add: ParseIP_def)
qed

lemma digits_ipchars_sub: "set digits \<subseteq> ipchars"
  by (simp add: digits_def ipchars_def)

lemma sep_ipchars: "CHR '':'' \<in> ipchars" "CHR ''.'' \<in> ipchars"
  by (simp_all add: ipchars_def)

lemma ipchars_plain:
  assumes "c \<in> ipchars"
  shows "c \<noteq> CHR 0x22" "c \<noteq> CHR '',''" "c \<notin> set asciiSpace"
    "\<forall>q\<in>set unicodeSpace. hd q \<noteq> c \<and> last q \<noteq> c \<and> q \<noteq> []"
  using assms by (auto simp: ipchars_def asciiSpace_def unicodeSpace_def)

lemma strings_Contains_single: "strings_Contains s [c] \<longleftrightarrow> c \<in> set s"
  by (induction s) auto

lemma strings_Trim_plain:
  assumes "s \<noteq> []" "hd s \<noteq> c" "last s \<noteq> c"
  shows "strings_Trim s c = s"
proof -
  have a: "dropWhile (\<lambda>x. x = c) s = s" using assms(1,2) by (cases s) auto
  have "rev s \<noteq> []" "hd (rev s) \<noteq> c" using assms(1,3) by (simp_all add: hd_rev)
  then have b: "dropWhile (\<lambda>x. x = c) (rev s) = rev s" by (cases "rev s") auto
  show ?thesis by (simp add: strings_Trim_def a b)
qed

lemma leadingSpace_plain:
  assumes "s \<noteq> []" "hd s \<in> ipchars"
  shows "leadingSpace s = 0"
proof -
  obtain c cs where s: "s = c # cs" using assms(1) by (cases s) auto
  have "\<not> prefix q s" if "q \<in> set unicodeSpace" for q
  proof
    assume p: "prefix q s"
    have "q \<noteq> []" "hd q \<noteq> c" using ipchars_plain(4)[OF assms(2)] that s by auto
    then show False using p s by (cases q) auto
  qed
  then have "find (\<lambda>q. prefix q s) unicodeSpace = None" by (auto simp: find_None_iff)
  then show ?thesis using s assms(2) ipchars_plain(3)[of c] by (simp add: leadingSpace_def)
qed

lemma trailingSpace_plain:
  assumes "s \<noteq> []" "last s \<in> ipchars"
  shows "trailingSpace s = 0"
proof -
  obtain c cs where s: "rev s = c # cs" using assms(1) by (cases "rev s") auto
  then have l: "last s = c" using assms(1) by (metis last_rev list.sel(1) rev_rev_ident hd_rev)
  have "\<not> suffix q s" if "q \<in> set unicodeSpace" for q
  proof
    assume p: "suffix q s"
    have q: "q \<noteq> []" "last q \<noteq> last s" using ipchars_plain(4)[OF assms(2)] that by auto
    from p obtain zs where "s = zs @ q" by (auto simp: suffix_def)
    then have "last s = last q" using q(1) by simp
    then show False using q(2) by simp
  qed
  then have "find (\<lambda>q. suffix q s) unicodeSpace = None" by (auto simp: find_None_iff)
  then show ?thesis using s l assms(2) ipchars_plain(3)[of c] by (simp add: trailingSpace_def)
qed

lemma strings_TrimSpace_plain:
  assumes "s \<noteq> []" "hd s \<in> ipchars" "last s \<in> ipchars"
  shows "strings_TrimSpace s = s"
proof -
  have "TrimLeftSpace s = s"
    using leadingSpace_plain[OF assms(1,2)] by (subst TrimLeftSpace.simps) simp
  moreover have "TrimRightSpace s = s"
    using trailingSpace_plain[OF assms(1,3)] by (subst TrimRightSpace.simps) simp
  ultimately show ?thesis by (simp add: strings_TrimSpace_def)
qed

lemma sanitizeIP_plain:
  assumes "s \<noteq> []" "set s \<subseteq> ipchars"
  shows "sanitizeIP s = (case ParseIP s of None \<Rightarrow> [] | Some ip \<Rightarrow> IP_String ip)"
proof -
  have h: "hd s \<in> ipchars" "last s \<in> ipchars" using assms by auto
  have t: "strings_Trim s (CHR 0x22) = s"
    using strings_Trim_plain[OF assms(1)] ipchars_plain(1) h by blast
  have c: "\<not> strings_Contains s '',''"
    using assms(2) ipchars_plain(2) by (auto simp: strings_Contains_single)
  show ?thesis
    by (simp add: sanitizeIP_def Let_def t c strings_TrimSpace_plain[OF assms(1) h])
qed

lemma string4_chars: "set (string4 [a, b, c, d]) \<subseteq> ipchars \<and> string4 [a, b, c, d] \<noteq> []"
proof -
  have "set (appendDecimal (unat x)) \<subseteq> ipchars" for x :: byte
    using appendDecimal_chars[of "unat x"] unsigned_less[of x, where 'a = nat] digits_ipchars_sub
    by auto
  then show ?thesis using sep_ipchars by (auto simp: string4_def)
qed

lemma string6_chars:
  assumes "length p = 16"
  shows "set (string6 p) \<subseteq> ipchars \<and> string6 p \<noteq> []"
proof -
  let ?g = "map (v6u16 p) [0..<8]"
  have r: "inRange ?g" by (rule inRange_v6u16)
  obtain zs ze where z: "longestZeros ?g = (zs, ze)" by (cases "longestZeros ?g")
  have j: "set (joinColon (map appendHex gs)) \<subseteq> ipchars" if "inRange gs" for gs
    using joinColon_chars[OF that] digits_ipchars_sub sep_ipchars(1) by blast
  have j1: "set (joinColon (map appendHex (take zs ?g))) \<subseteq> ipchars"
    and j2: "set (joinColon (map appendHex (drop ze ?g))) \<subseteq> ipchars"
    using j inRange_take_drop[OF r] by blast+
  have "set (string6g ?g) \<subseteq> ipchars"
  proof (cases "zs < 8")
    case True
    then have "string6g ?g = joinColon (map appendHex (take zs ?g)) @ ''::'' @
                 joinColon (map appendHex (drop ze ?g))"
      using z by (simp add: string6g_def)
    then show ?thesis using j1 j2 sep_ipchars(1) by auto
  next
    case False
    then have "string6g ?g = joinColon (map appendHex ?g)" using z by (simp add: string6g_def)
    then show ?thesis using j[OF r] by simp
  qed
  moreover have "string6g ?g \<noteq> []"
    using string6g_colon_first[of ?g] r by auto
  ultimately show ?thesis by (simp add: string6_groups)
qed

lemma IP_String_chars:
  assumes "length p = 16"
  shows "set (IP_String p) \<subseteq> ipchars \<and> IP_String p \<noteq> []"
  using To4_cases[OF assms]
proof
  assume "To4 p = None"
  then have "IP_String p = string6 p" using assms by (simp add: IP_String_def)
  then show ?thesis using string6_chars[OF assms] by simp
next
  assume "\<exists>a b c d. p = v4InV6Prefix @ [a, b, c, d] \<and> To4 p = Some [a, b, c, d]"
  then obtain a b c d where q: "To4 p = Some [a, b, c, d]" by blast
  then have "IP_String p = string4 [a, b, c, d]" using assms by (simp add: IP_String_def)
  then show ?thesis using string4_chars[of a b c d] by simp
qed

lemma sanitizeIP_IP_String:
  assumes "length p = 16"
  shows "sanitizeIP (IP_String p) = IP_String p"
  using IP_String_chars[OF assms] ParseIP_IP_String[OF assms]
  by (simp add: sanitizeIP_plain)

lemma sanitizeIP_range: "sanitizeIP raw = [] \<or> (\<exists>p. length p = 16 \<and> sanitizeIP raw = IP_String p)"
  by (auto simp: sanitizeIP_def Let_def split: option.splits dest: ParseIP_length)

lemma sanitizeIP_Nil: "sanitizeIP [] = []"
  by code_simp

text \<open>
  C8. Normalisation is idempotent. The canonical form of every address that
  \<^verbatim>\<open>net.ParseIP\<close> returns is left unchanged by \<^verbatim>\<open>sanitizeIP\<close>, so normalising
  twice is normalising once (the invalid result, the empty string, is invalid again).
  The CSV artifact \<open>203.0.113.25,extra\<close> normalises to \<open>203.0.113.25\<close> and
  \<open>not-an-ip\<close> to the invalid result.
\<close>

theorem sanitizeIP_idempotent:
  "(ParseIP s = Some p \<longrightarrow> sanitizeIP (IP_String p) = IP_String p)
   \<and> sanitizeIP (sanitizeIP raw) = sanitizeIP raw
   \<and> sanitizeIP ''203.0.113.25,extra'' = ''203.0.113.25''
   \<and> sanitizeIP ''not-an-ip'' = []"
proof -
  have a: "ParseIP s = Some p \<longrightarrow> sanitizeIP (IP_String p) = IP_String p"
    using ParseIP_length sanitizeIP_IP_String by blast
  have b: "sanitizeIP (sanitizeIP raw) = sanitizeIP raw"
    using sanitizeIP_range[of raw] sanitizeIP_IP_String sanitizeIP_Nil by auto
  have c: "sanitizeIP ''203.0.113.25,extra'' = ''203.0.113.25''" by code_simp
  have d: "sanitizeIP ''not-an-ip'' = []" by code_simp
  show ?thesis using a b c d by blast
qed

theorem sanitizeIP_idempotent_witness:
  "ParseIP ''2001:DB8:0:0:1:0:0:1'' = Some [0x20, 0x01, 0x0d, 0xb8, 0, 0, 0, 0, 0, 1, 0, 0, 0, 0, 0, 1]
   \<and> IP_String [0x20, 0x01, 0x0d, 0xb8, 0, 0, 0, 0, 0, 1, 0, 0, 0, 0, 0, 1] = ''2001:db8::1:0:0:1''
   \<and> sanitizeIP ''2001:db8::1:0:0:1'' = ''2001:db8::1:0:0:1''"
proof -
  have h: "ParseIP ''2001:DB8:0:0:1:0:0:1'' = Some [0x20, 0x01, 0x0d, 0xb8, 0, 0, 0, 0, 0, 1, 0, 0, 0, 0, 0, 1]"
    by code_simp
  have s: "IP_String [0x20, 0x01, 0x0d, 0xb8, 0, 0, 0, 0, 0, 1, 0, 0, 0, 0, 0, 1] = ''2001:db8::1:0:0:1''"
    by code_simp
  have "sanitizeIP (IP_String [0x20, 0x01, 0x0d, 0xb8, 0, 0, 0, 0, 0, 1, 0, 0, 0, 0, 0, 1])
          = IP_String [0x20, 0x01, 0x0d, 0xb8, 0, 0, 0, 0, 0, 1, 0, 0, 0, 0, 0, 1]"
    using sanitizeIP_idempotent [of "''2001:DB8:0:0:1:0:0:1''"] h by blast
  then show ?thesis using h s by simp
qed

section \<open>Properties of persistence\<close>

lemma htmlSafe_plain:
  assumes "htmlSafe c"
  shows "c \<noteq> CHR 0x22" "c \<noteq> CHR 0x5C" "\<not> c < CHR 0x20" "c < CHR 0x80"
  using assms by (auto simp: htmlSafe_def)

lemma appendString_go_plain: "list_all htmlSafe k \<Longrightarrow> appendString_go Ready k = k"
  by (induction k) (auto simp: htmlSafe_plain)

lemma unquote_go_plain: "list_all htmlSafe k \<Longrightarrow> unquote_go Ready k = k"
  by (induction k) (auto simp: htmlSafe_plain)

lemma scan_string_body:
  "mode s = InString \<Longrightarrow> list_all htmlSafe k \<Longrightarrow> foldl step s k = s\<lparr>lit := lit s @ k\<rparr>"
proof (induction k arbitrary: s)
  case Nil
  then show ?case by simp
next
  case (Cons c k)
  have st: "step s c = s\<lparr>lit := lit s @ [c]\<rparr>"
    using Cons.prems htmlSafe_plain[of c] by (simp add: step_def)
  show ?case using Cons.IH[of "s\<lparr>lit := lit s @ [c]\<rparr>"] Cons.prems st by simp
qed

lemma scan_digits:
  "mode s = Num1 \<Longrightarrow> list_all isDigit ds \<Longrightarrow> foldl step s ds = s\<lparr>lit := lit s @ ds\<rparr>"
proof (induction ds arbitrary: s)
  case Nil
  then show ?case by simp
next
  case (Cons c ds)
  have st: "step s c = s\<lparr>lit := lit s @ [c]\<rparr>"
    using Cons.prems by (simp add: step_def)
  show ?case using Cons.IH[of "s\<lparr>lit := lit s @ [c]\<rparr>"] Cons.prems st by simp
qed

lemma nonzero_digit:
  assumes "isDigit d" "d \<noteq> CHR ''0''"
  shows "CHR ''1'' \<le> d \<and> d \<le> CHR ''9''"
proof -
  have "(of_char d :: nat) = of_char (CHR ''0'') \<longleftrightarrow> d = CHR ''0''" by (rule of_char_eq_iff)
  then have "of_char d \<noteq> (48::nat)" using assms(2) by simp
  then show ?thesis using assms(1) by (auto simp: isDigit_def less_eq_char_def)
qed

lemma decimal_pos_shape:
  assumes "0 < n"
  shows "\<exists>d ds. decimal n = d # ds \<and> CHR ''1'' \<le> d \<and> d \<le> CHR ''9'' \<and> list_all isDigit ds"
proof -
  have s: "decimal n \<noteq> []" "list_all isDigit (decimal n)" "hd (decimal n) \<noteq> CHR ''0''"
    using decimal_spec[of n] assms by auto
  then obtain d ds where d: "decimal n = d # ds" by (cases "decimal n") auto
  then show ?thesis using s nonzero_digit[of d] by auto
qed

lemma lead_digit_plain:
  assumes "CHR ''1'' \<le> d" "d \<le> CHR ''9''"
  shows "\<not> isSpace d" "d \<noteq> CHR ''{''" "d \<noteq> CHR ''[''" "d \<noteq> CHR 0x22" "d \<noteq> CHR ''-''"
    "d \<noteq> CHR ''0''" "d \<noteq> CHR ''t''" "d \<noteq> CHR ''f''" "d \<noteq> CHR ''n''" "isDigit d" "d \<noteq> CHR ''+''"
  using assms by (auto simp: isSpace_def isDigit_def less_eq_char_def)

lemma scan_number:
  assumes "mode s = BeginValue" "parseState s = [ObjectValue]"
  shows "foldl step s (appendInt v) = s\<lparr>mode := Num0, lit := appendInt v, cls := VNum\<rparr>
       \<or> foldl step s (appendInt v) = s\<lparr>mode := Num1, lit := appendInt v, cls := VNum\<rparr>"
proof -
  consider (neg) "sint v < 0" | (zero) "sint v = 0" | (pos) "0 < sint v" by linarith
  then show ?thesis
  proof cases
    case neg
    then obtain d ds where d: "decimal (- sint v) = d # ds" "CHR ''1'' \<le> d" "d \<le> CHR ''9''"
        "list_all isDigit ds"
      using decimal_pos_shape[of "- sint v"] by auto
    have a: "appendInt v = CHR ''-'' # d # ds" using neg d(1) by (simp add: appendInt_def)
    have s1: "step s (CHR ''-'') = s\<lparr>cls := VNum, mode := Neg, lit := [CHR ''-'']\<rparr>"
      using assms by (simp add: step_def stateBeginValue_def noteValue_def isSpace_def Let_def)
    have s2: "step (s\<lparr>cls := VNum, mode := Neg, lit := [CHR ''-'']\<rparr>) d
              = s\<lparr>cls := VNum, mode := Num1, lit := [CHR ''-'', d]\<rparr>"
      using lead_digit_plain[OF d(2,3)] d(2,3) by (simp add: step_def)
    have "foldl step s (appendInt v) = s\<lparr>cls := VNum, mode := Num1, lit := [CHR ''-'', d] @ ds\<rparr>"
      unfolding a using s1 s2 scan_digits[of "s\<lparr>cls := VNum, mode := Num1, lit := [CHR ''-'', d]\<rparr>" ds] d(4)
      by simp
    then show ?thesis using a by simp
  next
    case zero
    have a: "appendInt v = ''0''" using zero by (simp add: appendInt_def decimal_small digits_0)
    have "step s (CHR ''0'') = s\<lparr>cls := VNum, mode := Num0, lit := ''0''\<rparr>"
      using assms
      by (simp add: step_def stateBeginValue_def noteValue_def isSpace_def Let_def isDigit_def
          pushParseState_def)
    then show ?thesis using a by simp
  next
    case pos
    then obtain d ds where d: "decimal (sint v) = d # ds" "CHR ''1'' \<le> d" "d \<le> CHR ''9''"
        "list_all isDigit ds"
      using decimal_pos_shape[of "sint v"] by auto
    have a: "appendInt v = d # ds" using pos d(1) by (simp add: appendInt_def)
    have s1: "step s d = s\<lparr>cls := VNum, mode := Num1, lit := [d]\<rparr>"
      using assms lead_digit_plain[OF d(2,3)] d(2,3)
      by (simp add: step_def stateBeginValue_def noteValue_def Let_def)
    have "foldl step s (appendInt v) = s\<lparr>cls := VNum, mode := Num1, lit := [d] @ ds\<rparr>"
      unfolding a using s1 scan_digits[of "s\<lparr>cls := VNum, mode := Num1, lit := [d]\<rparr>" ds] d(4)
      by simp
    then show ?thesis using a by simp
  qed
qed

lemma ParseInt_appendInt: "ParseInt (appendInt v) = Some (sint v)"
proof (cases "sint v < 0")
  case True
  have sp: "decimal (- sint v) \<noteq> []" "list_all isDigit (decimal (- sint v))"
      "decimalValue (decimal (- sint v)) = - sint v"
    using decimal_spec[of "- sint v"] True by auto
  have "- sint v \<le> 2 ^ 63" using sint_ge[of v] by simp
  then show ?thesis using True sp by (simp add: ParseInt_def appendInt_def)
next
  case False
  have sp: "decimal (sint v) \<noteq> []" "list_all isDigit (decimal (sint v))"
      "decimalValue (decimal (sint v)) = sint v"
    using decimal_spec[of "sint v"] False by auto
  then obtain d ds where d: "decimal (sint v) = d # ds" by (cases "decimal (sint v)") auto
  then have "isDigit d" using sp(2) by simp
  then have nd: "d \<noteq> CHR ''-''" "d \<noteq> CHR ''+''" by (auto simp: isDigit_def less_eq_char_def)
  have "sint v < 2 ^ 63" using sint_lt[of v] by simp
  then show ?thesis using False sp d nd by (simp add: ParseInt_def appendInt_def)
qed

lemma scan_member_prefix:
  assumes "at_key s" "list_all htmlSafe k"
  shows "foldl step s (memberHead k)
           = s\<lparr>mode := BeginValue, parseState := [ObjectValue], lit := k, mkey := k\<rparr>"
proof -
  have ws: "step s (CHR 0x0A) = s" "step s (CHR '' '') = s"
    using assms(1) by (auto simp: at_key_def step_def isSpace_def)
  have q: "step s (CHR 0x22) = s\<lparr>mode := InString, lit := []\<rparr>"
    using assms(1) by (auto simp: at_key_def step_def isSpace_def)
  have body: "foldl step (s\<lparr>mode := InString, lit := []\<rparr>) k = s\<lparr>mode := InString, lit := k\<rparr>"
    using scan_string_body[of "s\<lparr>mode := InString, lit := []\<rparr>" k] assms(2) by simp
  have close: "step (s\<lparr>mode := InString, lit := k\<rparr>) (CHR 0x22) = s\<lparr>mode := EndValue, lit := k, mkey := k\<rparr>"
    using assms by (simp add: step_def at_key_def unquote_def unquote_go_plain)
  have colon: "step (s\<lparr>mode := EndValue, lit := k, mkey := k\<rparr>) (CHR '':'')
                 = s\<lparr>mode := BeginValue, parseState := [ObjectValue], lit := k, mkey := k\<rparr>"
    using assms(1) by (simp add: step_def stateEndValue_def at_key_def isSpace_def)
  have sp: "step (s\<lparr>mode := BeginValue, parseState := [ObjectValue], lit := k, mkey := k\<rparr>) (CHR '' '')
              = s\<lparr>mode := BeginValue, parseState := [ObjectValue], lit := k, mkey := k\<rparr>"
    by (simp add: step_def stateBeginValue_def isSpace_def)
  show ?thesis
    using assms(2) ws q body close colon sp
    by (simp add: memberHead_def appendString_def appendString_go_plain)
qed

lemma scan_member_value:
  assumes "at_key s" "list_all htmlSafe k"
  shows "\<exists>m. (m = Num0 \<or> m = Num1) \<and>
           foldl step s (memberHead k @ appendInt v)
             = s\<lparr>mode := m, parseState := [ObjectValue], lit := appendInt v, mkey := k, cls := VNum\<rparr>"
proof -
  let ?s1 = "s\<lparr>mode := BeginValue, parseState := [ObjectValue], lit := k, mkey := k\<rparr>"
  have p: "foldl step s (memberHead k @ appendInt v) = foldl step ?s1 (appendInt v)"
    using scan_member_prefix[OF assms] by simp
  have "foldl step ?s1 (appendInt v) = ?s1\<lparr>mode := Num0, lit := appendInt v, cls := VNum\<rparr>
      \<or> foldl step ?s1 (appendInt v) = ?s1\<lparr>mode := Num1, lit := appendInt v, cls := VNum\<rparr>"
    by (rule scan_number) simp_all
  then show ?thesis unfolding p by auto
qed

lemma step_value_comma:
  assumes "m = Num0 \<or> m = Num1"
  shows "step (s\<lparr>mode := m, parseState := [ObjectValue], lit := l, mkey := k, cls := VNum\<rparr>) (CHR '','')
          = s\<lparr>mode := BeginString, parseState := [ObjectKey], lit := l, mkey := k,
               cls := VNum, members := members s @ [(k, VNum, l)]\<rparr>"
  using assms
  by (auto simp: step_def state0_def stateEndValue_def isSpace_def recordMember_def isDigit_def)

lemma step_value_close:
  assumes "m = Num0 \<or> m = Num1"
  shows "foldl step (s\<lparr>mode := m, parseState := [ObjectValue], lit := l, mkey := k, cls := VNum\<rparr>)
            [CHR 0x0A, CHR ''}'']
          = s\<lparr>mode := EndTop, parseState := [], lit := l, mkey := k,
               cls := VNum, members := members s @ [(k, VNum, l)]\<rparr>"
proof -
  have nl: "step (s\<lparr>mode := m, parseState := [ObjectValue], lit := l, mkey := k, cls := VNum\<rparr>) (CHR 0x0A)
          = s\<lparr>mode := EndValue, parseState := [ObjectValue], lit := l, mkey := k, cls := VNum\<rparr>"
    using assms by (auto simp: step_def state0_def stateEndValue_def isSpace_def isDigit_def)
  have cl: "step (s\<lparr>mode := EndValue, parseState := [ObjectValue], lit := l, mkey := k, cls := VNum\<rparr>) (CHR ''}'')
          = s\<lparr>mode := EndTop, parseState := [], lit := l, mkey := k,
               cls := VNum, members := members s @ [(k, VNum, l)]\<rparr>"
    by (simp add: step_def stateEndValue_def isSpace_def recordMember_def popParseState_def)
  show ?thesis using nl cl by simp
qed

lemma scan_members:
  assumes "ks \<noteq> []" "\<forall>k\<in>set ks. list_all htmlSafe k" "at_key s"
  shows "mode (foldl step s (indentMembers (map (\<lambda>k. appendString k @ '': '' @ appendInt (f k)) ks) @ ''}'')) = EndTop
       \<and> top (foldl step s (indentMembers (map (\<lambda>k. appendString k @ '': '' @ appendInt (f k)) ks) @ ''}'')) = Some TopObject
       \<and> members (foldl step s (indentMembers (map (\<lambda>k. appendString k @ '': '' @ appendInt (f k)) ks) @ ''}''))
           = members s @ map (\<lambda>k. (k, VNum, appendInt (f k))) ks"
  using assms
proof (induction ks arbitrary: s rule: induct_list012)
  case 1
  then show ?case by simp
next
  case (2 k)
  have k: "list_all htmlSafe k" using 2 by simp
  obtain m where m: "m = Num0 \<or> m = Num1"
    "foldl step s (memberHead k @ appendInt (f k))
       = s\<lparr>mode := m, parseState := [ObjectValue], lit := appendInt (f k), mkey := k, cls := VNum\<rparr>"
    using scan_member_value[OF "2.prems"(3) k] by blast
  have split: "indentMembers (map (\<lambda>k. appendString k @ '': '' @ appendInt (f k)) [k]) @ ''}''
      = (memberHead k @ appendInt (f k)) @ [CHR 0x0A, CHR ''}'']"
    by (simp add: memberHead_def)
  have "foldl step s (indentMembers (map (\<lambda>k. appendString k @ '': '' @ appendInt (f k)) [k]) @ ''}'')
        = s\<lparr>mode := EndTop, parseState := [], lit := appendInt (f k), mkey := k,
               cls := VNum, members := members s @ [(k, VNum, appendInt (f k))]\<rparr>"
    unfolding split using m(2) step_value_close[OF m(1), where s = s and l = "appendInt (f k)" and k = k] by simp
  then show ?case using "2.prems"(3) by (simp add: at_key_def)
next
  case (3 k k' ks)
  have k: "list_all htmlSafe k" using "3.prems" by simp
  obtain m where m: "m = Num0 \<or> m = Num1"
    "foldl step s (memberHead k @ appendInt (f k))
       = s\<lparr>mode := m, parseState := [ObjectValue], lit := appendInt (f k), mkey := k, cls := VNum\<rparr>"
    using scan_member_value[OF "3.prems"(3) k] by blast
  let ?s1 = "s\<lparr>mode := BeginString, parseState := [ObjectKey], lit := appendInt (f k), mkey := k,
               cls := VNum, members := members s @ [(k, VNum, appendInt (f k))]\<rparr>"
  let ?rest = "indentMembers (map (\<lambda>k. appendString k @ '': '' @ appendInt (f k)) (k' # ks)) @ ''}''"
  have split: "indentMembers (map (\<lambda>k. appendString k @ '': '' @ appendInt (f k)) (k # k' # ks)) @ ''}''
      = (memberHead k @ appendInt (f k)) @ [CHR '',''] @ ?rest"
    by (simp add: memberHead_def)
  have run: "foldl step s (indentMembers (map (\<lambda>k. appendString k @ '': '' @ appendInt (f k)) (k # k' # ks)) @ ''}'')
      = foldl step ?s1 ?rest"
    unfolding split
    using m(2) step_value_comma[OF m(1), where s = s and l = "appendInt (f k)" and k = k] by simp
  have a: "at_key ?s1" using "3.prems"(3) by (simp add: at_key_def)
  have "mode (foldl step ?s1 ?rest) = EndTop \<and> top (foldl step ?s1 ?rest) = Some TopObject
      \<and> members (foldl step ?s1 ?rest) = members ?s1 @ map (\<lambda>k. (k, VNum, appendInt (f k))) (k' # ks)"
    using "3.IH"(2)[of ?s1] "3.prems"(2) a by simp
  then show ?case unfolding run by simp
qed

lemma memberValue_appendInt: "memberValue VNum (appendInt v) = (v, False)"
  by (simp add: memberValue_def ParseInt_appendInt)

lemma map_of_stored:
  "map_of (foldl storeMember acc (map (\<lambda>k. (k, VNum, appendInt (f k))) ks)) x
     = (if x \<in> set ks then Some (f x) else map_of acc x)"
proof (induction ks arbitrary: acc rule: rev_induct)
  case Nil
  then show ?case by simp
next
  case (snoc k ks)
  then show ?case by (simp add: storeMember_def memberValue_appendInt update_conv')
qed

lemma no_member_error:
  "\<not> list_ex (\<lambda>(k, c, l). snd (memberValue c l)) (map (\<lambda>k. (k, VNum, appendInt (f k))) ks)"
  by (induction ks) (simp_all add: memberValue_appendInt)

lemma map_of_lookup:
  "map_of m x = (if x \<in> set (sortedKeys m) then Some (lookup m x) else None)"
proof (cases "map_of m x")
  case None
  then show ?thesis by (simp add: sortedKeys_def map_of_eq_None_iff)
next
  case (Some v)
  then have "x \<in> fst ` set m" by (simp add: map_of_SomeD image_iff rev_bexI[of "(x, v)"])
  then show ?thesis using Some by (simp add: sortedKeys_def lookup_def)
qed

lemma step_open:
  "step scan_init (CHR ''{'')
     = scan_init\<lparr>top := Some TopObject, parseState := [ObjectKey], mode := BeginStringOrEmpty\<rparr>"
  by (simp add: step_def scan_init_def stateBeginValue_def noteValue_def isSpace_def
      pushParseState_def Let_def)

lemma Unmarshal_MarshalIndent:
  assumes "\<forall>k\<in>fst ` set m. list_all htmlSafe k"
  shows "\<exists>m'. Unmarshal (MarshalIndent (Some m)) None = (Some m', None) \<and> map_of m' = map_of m"
proof -
  let ?ks = "sortedKeys m"
  let ?s1 = "scan_init\<lparr>top := Some TopObject, parseState := [ObjectKey], mode := BeginStringOrEmpty\<rparr>"
  let ?text = "indentMembers (map (\<lambda>k. appendString k @ '': '' @ appendInt (lookup m k)) ?ks) @ ''}''"
  have sc: "scan (MarshalIndent (Some m)) = foldl step ?s1 ?text"
    by (simp add: scan_def MarshalIndent_def step_open)
  have ak: "at_key ?s1" by (simp add: at_key_def scan_init_def)
  have fin: "mode (foldl step ?s1 ?text) = EndTop \<and> top (foldl step ?s1 ?text) = Some TopObject
      \<and> members (foldl step ?s1 ?text) = map (\<lambda>k. (k, VNum, appendInt (lookup m k))) ?ks"
  proof (cases "?ks = []")
    case True
    then show ?thesis
      by (simp add: step_def scan_init_def isSpace_def popParseState_def)
  next
    case False
    have safe: "\<forall>k\<in>set ?ks. list_all htmlSafe k" using assms by (simp add: sortedKeys_def)
    show ?thesis using scan_members[OF False safe ak, of "lookup m"] by (simp add: scan_init_def)
  qed
  let ?m' = "foldl storeMember [] (map (\<lambda>k. (k, VNum, appendInt (lookup m k))) ?ks)"
  have u: "Unmarshal (MarshalIndent (Some m)) None = (Some ?m', None)"
    using fin no_member_error[of "lookup m" ?ks]
    by (simp add: Unmarshal_def Let_def sc checkValid_def)
  have "map_of ?m' = map_of m"
    by (rule ext) (simp add: map_of_stored map_of_lookup[of m])
  then show ?thesis using u by blast
qed

lemma Unmarshal_null: "Unmarshal (MarshalIndent None) None = (None, None)"
  by code_simp

lemma same_mapping_maps: "same_mapping (Some m) (Some m') = (map_of m = map_of m')"
proof
  assume s: "same_mapping (Some m) (Some m')"
  show "map_of m = map_of m'"
  proof
    fix k
    show "map_of m k = map_of m' k"
    proof (cases "k \<in> fst ` set m \<union> fst ` set m'")
      case True
      then show ?thesis using s by (auto simp: same_mapping_def list_all_iff)
    next
      case False
      then have "map_of m k = None" "map_of m' k = None" by (simp_all add: map_of_eq_None_iff)
      then show ?thesis by simp
    qed
  qed
next
  assume "map_of m = map_of m'"
  then show "same_mapping (Some m) (Some m')" by (simp add: same_mapping_def list_all_iff)
qed

lemma roundtrip_plain:
  assumes "case st of None \<Rightarrow> True | Some m \<Rightarrow> \<forall>k\<in>fst ` set m. list_all htmlSafe k"
    and "entry fs path \<noteq> Inaccessible" and "entry fs path = Absent \<longrightarrow> creatable fs path"
  shows "\<exists>st'. loadState (saveState fs path st) path = (st', None) \<and> same_mapping st st'"
proof -
  have w: "entry (saveState fs path st) path = File (MarshalIndent st)"
    using assms(2,3) by (cases "entry fs path") (auto simp: saveState_def WriteFile_def)
  then have l: "loadState (saveState fs path st) path = (fst (Unmarshal (MarshalIndent st) None), None)"
    by (simp add: loadState_def ReadFile_def)
  show ?thesis
  proof (cases st)
    case None
    then show ?thesis using l Unmarshal_null by (simp add: same_mapping_def)
  next
    case (Some m)
    then obtain m' where "Unmarshal (MarshalIndent (Some m)) None = (Some m', None)" "map_of m' = map_of m"
      using Unmarshal_MarshalIndent[of m] assms(1) by auto
    then show ?thesis using l Some by (simp add: same_mapping_maps)
  qed
qed

lemma ipchars_htmlSafe: "c \<in> ipchars \<Longrightarrow> htmlSafe c"
  unfolding ipchars_def htmlSafe_def by (auto simp: less_eq_char_def less_char_def)

lemma address_htmlSafe:
  assumes "sanitizeIP k = k"
  shows "list_all htmlSafe k"
proof -
  from sanitizeIP_range[of k] assms
  have "k = [] \<or> (\<exists>p. length p = 16 \<and> k = IP_String p)" by simp
  then show ?thesis
  proof
    assume "k = []" then show ?thesis by simp
  next
    assume "\<exists>p. length p = 16 \<and> k = IP_String p"
    then obtain p where p: "length p = 16" "k = IP_String p" by blast
    from IP_String_chars[OF p(1)] p(2) have "set k \<subseteq> ipchars" by simp
    then show ?thesis by (auto simp: list_all_iff ipchars_htmlSafe)
  qed
qed

lemma nil_map_panics:
  "loadState (state_file ''garbage'') (StateFile default_cfg) = (None, None)
   \<and> process_batch default_cfg failing_applier (fresh_run None) [''203.0.113.25''] = Inl NilMapWrite"
  by code_simp

text \<open>
  C4, as stated, fails. A state file that exists and whose content is not an encoding of
  address counts is not always loaded as an empty mapping: for the content
  \<^verbatim>\<open>{"198.51.100.50": 3, "x": "bad"}\<close> the decoder reports a type error, which
  \<^verbatim>\<open>loadState\<close> drops, and the mapping returned holds the count 3 for
  \<open>198.51.100.50\<close> (and a zero count for \<open>x\<close>).
\<close>

theorem loadState_partial_decode_counterexample:
  "entry (state_file mixed_content) (StateFile default_cfg) = File mixed_content
   \<and> snd (Unmarshal mixed_content None) = Some UnmarshalTypeError
   \<and> loadState (state_file mixed_content) (StateFile default_cfg)
       = (Some [(''198.51.100.50'', 3), (''x'', 0)], None)
   \<and> state_get (fst (loadState (state_file mixed_content) (StateFile default_cfg))) ''198.51.100.50'' = 3"
  by code_simp

text \<open>
  C4, amended. For every path whose file exists and can be read, \<^verbatim>\<open>loadState\<close> returns
  no error, whatever the content. When the content is not valid JSON, or is valid JSON
  whose top-level value is neither an object nor \<^verbatim>\<open>null\<close>, decoding it fails and the
  mapping returned has no entries: every address reads as count 0.
\<close>

theorem loadState_malformed:
  assumes "entry fs path = File raw"
  shows "snd (loadState fs path) = None
       \<and> (\<not> checkValid (scan raw) \<or> top (scan raw) = Some TopOther
            \<longrightarrow> snd (Unmarshal raw None) \<noteq> None
                \<and> state_keys (fst (loadState fs path)) = {}
                \<and> (\<forall>k. state_get (fst (loadState fs path)) k = 0))"
  using assms
  by (auto simp: loadState_def ReadFile_def Unmarshal_def Let_def state_keys_def state_get_def)

theorem loadState_malformed_witness:
  "entry (state_file ''garbage'') (StateFile default_cfg) = File ''garbage''
   \<and> \<not> checkValid (scan ''garbage'')
   \<and> snd (loadState (state_file ''garbage'') (StateFile default_cfg)) = None
   \<and> snd (Unmarshal ''garbage'' None) = Some SyntaxError
   \<and> state_keys (fst (loadState (state_file ''garbage'') (StateFile default_cfg))) = {}
   \<and> state_get (fst (loadState (state_file ''garbage'') (StateFile default_cfg))) ''203.0.113.25'' = 0"
proof -
  have h: "entry (state_file ''garbage'') (StateFile default_cfg) = File ''garbage''"
    by code_simp
  have v: "\<not> checkValid (scan ''garbage'')" by code_simp
  have e: "snd (Unmarshal ''garbage'' None) = Some SyntaxError" by code_simp
  from loadState_malformed[OF h] v h e show ?thesis by simp
qed

text \<open>
  C7, as stated, fails. \<^verbatim>\<open>saveState\<close> drops the error of \<^verbatim>\<open>os.WriteFile\<close>: when the
  file cannot be written (here: no file at the path and none can be created), loading the
  path afterwards gives what was there before, here the empty map of a missing file, and
  not the mapping that was saved.
\<close>

theorem saveState_unwritable_counterexample:
  "snd (WriteFile (state_file []) ''/opt/missing/state.json''
          (MarshalIndent (Some [(''203.0.113.25'', 2)]))) = Some ErrNotExist
   \<and> loadState (saveState (state_file []) ''/opt/missing/state.json'' (Some [(''203.0.113.25'', 2)]))
        ''/opt/missing/state.json'' = (Some [], None)
   \<and> \<not> same_mapping (Some [(''203.0.113.25'', 2)])
        (fst (loadState (saveState (state_file []) ''/opt/missing/state.json''
                           (Some [(''203.0.113.25'', 2)])) ''/opt/missing/state.json''))"
  by code_simp

text \<open>
  C7, amended. For every address-to-count mapping (every key is an address in the canonical
  form that \<^verbatim>\<open>sanitizeIP\<close> returns, every count is an \<^verbatim>\<open>int\<close>; the nil map included)
  and every path at which the write of \<^verbatim>\<open>saveState\<close> succeeds, loading the path after
  saving returns no error and the same mapping.
\<close>

theorem saveState_loadState_roundtrip:
  assumes "\<forall>k\<in>state_keys st. sanitizeIP k = k"
    and "snd (WriteFile fs path (MarshalIndent st)) = None"
  shows "snd (loadState (saveState fs path st) path) = None
       \<and> same_mapping st (fst (loadState (saveState fs path st) path))"
proof -
  have safe: "case st of None \<Rightarrow> True | Some m \<Rightarrow> \<forall>k\<in>fst ` set m. list_all htmlSafe k"
    using assms(1) by (auto simp: state_keys_def address_htmlSafe split: option.splits)
  have acc: "entry fs path \<noteq> Inaccessible"
    using assms(2) by (auto simp: WriteFile_def split: fsentry.splits)
  have cr: "entry fs path = Absent \<longrightarrow> creatable fs path"
    using assms(2) by (auto simp: WriteFile_def split: fsentry.splits if_splits)
  from roundtrip_plain[OF safe acc cr] show ?thesis by auto
qed

theorem saveState_loadState_roundtrip_witness:
  "sanitizeIP ''203.0.113.25'' = ''203.0.113.25'' \<and> sanitizeIP ''2001:db8::1'' = ''2001:db8::1''
   \<and> snd (WriteFile (state_file []) (StateFile default_cfg)
            (MarshalIndent (Some [(''203.0.113.25'', 2), (''2001:db8::1'', 1)]))) = None
   \<and> snd (loadState (saveState (state_file []) (StateFile default_cfg)
                        (Some [(''203.0.113.25'', 2), (''2001:db8::1'', 1)]))
             (StateFile default_cfg)) = None
   \<and> same_mapping (Some [(''203.0.113.25'', 2), (''2001:db8::1'', 1)])
        (fst (loadState (saveState (state_file []) (StateFile default_cfg)
                           (Some [(''203.0.113.25'', 2), (''2001:db8::1'', 1)]))
                (StateFile default_cfg)))"
proof -
  let ?st = "Some [(''203.0.113.25'', 2), (''2001:db8::1'', 1)] :: state"
  have a: "sanitizeIP ''203.0.113.25'' = ''203.0.113.25''" by code_simp
  have b: "sanitizeIP ''2001:db8::1'' = ''2001:db8::1''" by code_simp
  have k: "\<forall>k\<in>state_keys ?st. sanitizeIP k = k"
    using a b by (simp add: state_keys_def)
  have w: "snd (WriteFile (state_file []) (StateFile default_cfg) (MarshalIndent ?st)) = None"
    by code_simp
  from saveState_loadState_roundtrip[OF k w] a b w show ?thesis by simp
qed

end
